theory Spec2Isabelle
  imports Main "HOL-Library.Word" "HOL-Library.Multiset"
begin

section \<open>Library layer: bytes, big integers, hex strings\<close>

text \<open>
  The staking package (\<^verbatim>\<open>staking.go\<close>) computes the genesis storage of the staking
  contract. It calls a handful of functions of Go's standard library and of polygon-edge's
  helper packages; each is modelled here by the function of the same name.
  A Go \<^verbatim>\<open>[]byte\<close> is a list of 8-bit words, \<^verbatim>\<open>int64\<close> and \<^verbatim>\<open>uint64\<close> are 64-bit
  words (read with \<open>sint\<close> and \<open>unat\<close>; a conversion between the two keeps the bits),
  a \<^verbatim>\<open>*big.Int\<close> is an \<open>int\<close>.
\<close>

type_synonym byte = "8 word"
type_synonym int64 = "64 word"
type_synonym uint64 = "64 word"

text \<open>\<^verbatim>\<open>types.Address\<close> is \<^verbatim>\<open>[20]byte\<close> and \<^verbatim>\<open>types.Hash\<close> is \<^verbatim>\<open>[32]byte\<close>.\<close>

type_synonym Address = "byte list"
type_synonym Hash = "byte list"

definition HashLength :: nat where
  "HashLength = 32"

text \<open>\<^verbatim>\<open>address.Bytes()\<close> returns the 20 bytes of the address.\<close>

definition Address_Bytes :: "Address \<Rightarrow> byte list" where
  "Address_Bytes a = a"

text \<open>
  The minimal big-endian encoding of a natural number (no leading zero byte, the empty
  sequence for 0) and the reading of a byte sequence as a big-endian natural number.
\<close>

function bigEndian :: "nat \<Rightarrow> byte list" where
  "bigEndian n = (if n = 0 then [] else bigEndian (n div 256) @ [of_nat (n mod 256)])"
  by pat_completeness auto
termination
  by (relation "measure id") auto

declare bigEndian.simps [simp del]

definition toInt :: "byte list \<Rightarrow> nat" where
  "toInt bs = foldl (\<lambda>acc b. acc * 256 + unat b) 0 bs"

text \<open>
  \<^verbatim>\<open>big.NewInt(x int64)\<close>; \<^verbatim>\<open>(*big.Int).Bytes()\<close>, the big-endian bytes of the absolute
  value; \<^verbatim>\<open>(*big.Int).SetBytes(buf)\<close>, the unsigned big-endian reading of \<^verbatim>\<open>buf\<close>.
\<close>

definition big_NewInt :: "int64 \<Rightarrow> int" where
  "big_NewInt x = sint x"

definition big_Bytes :: "int \<Rightarrow> byte list" where
  "big_Bytes x = bigEndian (nat \<bar>x\<bar>)"

definition big_SetBytes :: "byte list \<Rightarrow> int" where
  "big_SetBytes buf = int (toInt buf)"

text \<open>
  \<^verbatim>\<open>common.PadLeftOrTrim(bb, size)\<close>: \<^verbatim>\<open>bb\<close> itself when it has \<^verbatim>\<open>size\<close> bytes, its last
  \<^verbatim>\<open>size\<close> bytes when it is longer, zero bytes put in front of it when it is shorter.
\<close>

definition PadLeftOrTrim :: "byte list \<Rightarrow> nat \<Rightarrow> byte list" where
  "PadLeftOrTrim bb size' =
     (let l = length bb in
      if l = size' then bb
      else if l > size' then drop (l - size') bb
      else replicate (size' - l) 0 @ bb)"

text \<open>
  \<^verbatim>\<open>types.BytesToHash(b)\<close>: copies the last \<^verbatim>\<open>min(len(b), 32)\<close> bytes of \<^verbatim>\<open>b\<close> to the end of
  a zeroed 32-byte array.
\<close>

definition BytesToHash :: "byte list \<Rightarrow> Hash" where
  "BytesToHash b =
     (let m = min (length b) HashLength in
      replicate (HashLength - m) 0 @ drop (length b - m) b)"

text \<open>The zero value of \<^verbatim>\<open>types.Hash\<close>, which reading a Go map at an absent key yields.\<close>

definition ZeroHash :: Hash where
  "ZeroHash = replicate HashLength 0"

subsection \<open>Hexadecimal strings\<close>

text \<open>
  The value of a hexadecimal digit (Go's \<^verbatim>\<open>encoding/hex\<close> reverse table; both cases are
  accepted), and the lower-case digit of a value below 16 (\<^verbatim>\<open>strconv\<close>'s digit table).
\<close>

definition fromHexChar :: "char \<Rightarrow> nat option" where
  "fromHexChar c = map_of
     [(CHR ''0'', 0), (CHR ''1'', 1), (CHR ''2'', 2), (CHR ''3'', 3), (CHR ''4'', 4),
      (CHR ''5'', 5), (CHR ''6'', 6), (CHR ''7'', 7), (CHR ''8'', 8), (CHR ''9'', 9),
      (CHR ''a'', 10), (CHR ''b'', 11), (CHR ''c'', 12), (CHR ''d'', 13), (CHR ''e'', 14),
      (CHR ''f'', 15),
      (CHR ''A'', 10), (CHR ''B'', 11), (CHR ''C'', 12), (CHR ''D'', 13), (CHR ''E'', 14),
      (CHR ''F'', 15)] c"

definition hexDigit :: "nat \<Rightarrow> char" where
  "hexDigit d = ''0123456789abcdef'' ! d"

datatype error =
    InvalidByteError char
  | ErrLength
  | could_not_parse
  | unable_to_generate_DefaultStatkedBalance error

text \<open>
  \<^verbatim>\<open>encoding/hex.DecodeString(s)\<close>: decodes two digits per byte; at the first character
  that is no hexadecimal digit, or at an odd length, it returns the bytes decoded before
  the error together with the error.
\<close>

fun hex_DecodeString :: "string \<Rightarrow> byte list \<times> error option" where
  "hex_DecodeString [] = ([], None)"
| "hex_DecodeString [p] =
     (case fromHexChar p of
        None \<Rightarrow> ([], Some (InvalidByteError p))
      | Some a \<Rightarrow> ([], Some ErrLength))"
| "hex_DecodeString (p # q # s) =
     (case fromHexChar p of
        None \<Rightarrow> ([], Some (InvalidByteError p))
      | Some a \<Rightarrow>
          (case fromHexChar q of
             None \<Rightarrow> ([], Some (InvalidByteError q))
           | Some b \<Rightarrow>
               (let (dst, err) = hex_DecodeString s
                in (of_nat (a * 16 + b) # dst, err))))"

text \<open>\<^verbatim>\<open>strings.HasPrefix\<close> and \<^verbatim>\<open>strings.TrimPrefix\<close>.\<close>

definition HasPrefix :: "string \<Rightarrow> string \<Rightarrow> bool" where
  "HasPrefix s pre = (take (length pre) s = pre)"

definition TrimPrefix :: "string \<Rightarrow> string \<Rightarrow> string" where
  "TrimPrefix s pre = (if HasPrefix s pre then drop (length pre) s else s)"

text \<open>\<^verbatim>\<open>hex.DecodeHex(str)\<close> of polygon-edge: drops a leading \<^verbatim>\<open>0x\<close> and decodes.\<close>

definition DecodeHex :: "string \<Rightarrow> byte list \<times> error option" where
  "DecodeHex str = hex_DecodeString (TrimPrefix str ''0x'')"

text \<open>
  \<^verbatim>\<open>types.StringToHash(str)\<close> is \<^verbatim>\<open>BytesToHash(stringToBytes(str))\<close>, where
  \<^verbatim>\<open>stringToBytes\<close> drops a leading \<^verbatim>\<open>0x\<close>, puts a \<^verbatim>\<open>0\<close> in front of an odd number of
  digits, decodes and discards the decoder's error.
\<close>

definition stringToBytes :: "string \<Rightarrow> byte list" where
  "stringToBytes str =
     (let str1 = TrimPrefix str ''0x'';
          str2 = (if length str1 mod 2 = 1 then ''0'' @ str1 else str1)
      in fst (hex_DecodeString str2))"

definition StringToHash :: "string \<Rightarrow> Hash" where
  "StringToHash str = BytesToHash (stringToBytes str)"

text \<open>
  The digits of a natural number in base 16, lower case, without leading zeros
  (\<^verbatim>\<open>strconv.AppendUint(_, i, 16)\<close>, and \<^verbatim>\<open>%x\<close> of \<^verbatim>\<open>fmt\<close> on a \<^verbatim>\<open>*big.Int\<close>).
\<close>

function formatHex :: "nat \<Rightarrow> string" where
  "formatHex n = (if n < 16 then [hexDigit n] else formatHex (n div 16) @ [hexDigit (n mod 16)])"
  by pat_completeness auto
termination
  by (relation "measure id") auto

declare formatHex.simps [simp del]

text \<open>\<^verbatim>\<open>hex.EncodeUint64(i)\<close>: \<^verbatim>\<open>0x\<close> followed by the digits of \<^verbatim>\<open>i\<close>.\<close>

definition EncodeUint64 :: "uint64 \<Rightarrow> string" where
  "EncodeUint64 i = ''0x'' @ formatHex (unat i)"

text \<open>
  \<^verbatim>\<open>hex.EncodeBig(b)\<close>: \<^verbatim>\<open>0x0\<close> when \<^verbatim>\<open>b\<close> has bit length 0, else \<^verbatim>\<open>fmt.Sprintf("%#x", b)\<close>,
  which writes the sign, the prefix \<^verbatim>\<open>0x\<close> and the digits of the absolute value.
\<close>

definition EncodeBig :: "int \<Rightarrow> string" where
  "EncodeBig b =
     (if b = 0 then ''0x0''
      else (if b < 0 then ''-'' else '''') @ ''0x'' @ formatHex (nat \<bar>b\<bar>))"

text \<open>
  \<^verbatim>\<open>(*big.Int).SetString(s, base)\<close> for the bases 10 and 16 the package uses: an optional
  sign, then at least one digit, every digit below the base, and nothing else.
  \<open>None\<close> is the result \<^verbatim>\<open>ok == false\<close>.
\<close>

definition digitsValue :: "nat \<Rightarrow> string \<Rightarrow> nat option" where
  "digitsValue base ds =
     (if ds = [] \<or> \<not> list_all (\<lambda>c. case fromHexChar c of None \<Rightarrow> False | Some d \<Rightarrow> d < base) ds
      then None
      else Some (foldl (\<lambda>acc c. acc * base + the (fromHexChar c)) 0 ds))"

definition big_SetString :: "string \<Rightarrow> nat \<Rightarrow> int option" where
  "big_SetString s base =
     (case s of
        c # r \<Rightarrow>
          (if c = CHR ''-'' then map_option (\<lambda>v. - int v) (digitsValue base r)
           else if c = CHR ''+'' then map_option int (digitsValue base r)
           else map_option int (digitsValue base s))
      | [] \<Rightarrow> None)"

text \<open>
  \<^verbatim>\<open>types.ParseUint256orHex(val)\<close> for a non-nil \<^verbatim>\<open>val\<close>: base 16 after a leading \<^verbatim>\<open>0x\<close>,
  base 10 otherwise; the error \<^verbatim>\<open>could not parse\<close> when \<^verbatim>\<open>SetString\<close> fails.
\<close>

definition ParseUint256orHex :: "string \<Rightarrow> error + int" where
  "ParseUint256orHex val =
     (let (str, base) = (if HasPrefix val ''0x'' then (drop 2 val, 16) else (val, 10))
      in case big_SetString str base of
           None \<Rightarrow> Inl could_not_parse
         | Some b \<Rightarrow> Inr b)"

section \<open>The staking package\<close>

text \<open>
  \<^verbatim>\<open>keccak.Keccak256(nil, b)\<close> is a parameter \<open>H\<close> of every function that hashes:
  the package only calls it.
\<close>

type_synonym keccak = "byte list \<Rightarrow> byte list"

subsection \<open>Slot definitions for SC storage\<close>

definition validatorsSlot :: int64 where
  "validatorsSlot = 0"

definition addressToIsValidatorSlot :: int64 where
  "addressToIsValidatorSlot = 1"

definition addressToStakedAmountSlot :: int64 where
  "addressToStakedAmountSlot = 2"

definition addressToValidatorIndexSlot :: int64 where
  "addressToValidatorIndexSlot = 3"

definition stakedAmountSlot :: int64 where
  "stakedAmountSlot = 4"

definition minNumValidatorSlot :: int64 where
  "minNumValidatorSlot = 5"

definition maxNumValidatorSlot :: int64 where
  "maxNumValidatorSlot = 6"

definition DefaultStakedBalance :: string where
  "DefaultStakedBalance = ''0x8AC7230489E80000''"

subsection \<open>Storage indexes\<close>

definition getAddressMapping :: "keccak \<Rightarrow> Address \<Rightarrow> int64 \<Rightarrow> byte list" where
  "getAddressMapping H address slot =
     (let bigSlot = big_NewInt slot;
          finalSlice = PadLeftOrTrim (Address_Bytes address) 32
                       @ PadLeftOrTrim (big_Bytes bigSlot) 32;
          keccakValue = H finalSlice
      in keccakValue)"

definition getIndexWithOffset :: "byte list \<Rightarrow> int64 \<Rightarrow> byte list" where
  "getIndexWithOffset keccakHash offset =
     (let bigOffset = big_NewInt offset;
          bigKeccak = big_SetBytes keccakHash;
          bigKeccak' = bigKeccak + bigOffset
      in big_Bytes bigKeccak')"

record StorageIndexes =
  ValidatorsIndex :: "byte list"
  ValidatorsArraySizeIndex :: "byte list"
  AddressToIsValidatorIndex :: "byte list"
  AddressToStakedAmountIndex :: "byte list"
  AddressToValidatorIndexIndex :: "byte list"
  StakedAmountIndex :: "byte list"

definition getStorageIndexes :: "keccak \<Rightarrow> Address \<Rightarrow> int64 \<Rightarrow> StorageIndexes" where
  "getStorageIndexes H address index =
     \<lparr> ValidatorsIndex =
         getIndexWithOffset
           (H (PadLeftOrTrim (big_Bytes (big_NewInt validatorsSlot)) 32)) index,
       ValidatorsArraySizeIndex = [ucast validatorsSlot],
       AddressToIsValidatorIndex = getAddressMapping H address addressToIsValidatorSlot,
       AddressToStakedAmountIndex = getAddressMapping H address addressToStakedAmountSlot,
       AddressToValidatorIndexIndex = getAddressMapping H address addressToValidatorIndexSlot,
       StakedAmountIndex = big_Bytes (big_NewInt stakedAmountSlot) \<rparr>"

subsection \<open>Predeployment\<close>

record PredeployParams =
  MinValidatorCount :: uint64
  MaxValidatorCount :: uint64

text \<open>
  \<^verbatim>\<open>chain.GenesisAccount\<close>, with the three fields the package sets. The storage is a Go
  map from \<^verbatim>\<open>types.Hash\<close> to \<^verbatim>\<open>types.Hash\<close>.
\<close>

type_synonym storage = "Hash \<rightharpoonup> Hash"

record GenesisAccount =
  Code :: "byte list"
  Storage :: storage
  Balance :: int

text \<open>Reading a Go map: the zero value at an absent key.\<close>

definition storage_at :: "storage \<Rightarrow> Hash \<Rightarrow> Hash" where
  "storage_at m k = (case m k of None \<Rightarrow> ZeroHash | Some v \<Rightarrow> v)"

text \<open>
  The body of the loop \<^verbatim>\<open>for indx, validator := range validators\<close>: the state is the storage
  map and the running total \<^verbatim>\<open>stakedAmount\<close>; \<open>indx\<close> is the position of \<open>validator\<close>.
  The six writes are made in the order of the source. \<^verbatim>\<open>bigTrueValue\<close>, which the source sets
  once before the loop, is bound in the body.
\<close>

definition validator_step ::
  "keccak \<Rightarrow> int \<Rightarrow> nat \<Rightarrow> Address \<Rightarrow> storage \<times> int \<Rightarrow> storage \<times> int" where
  "validator_step H bigDefaultStakedBalance indx validator st =
     (let storageMap = fst st;
          bigTrueValue = big_NewInt 1;
          stakedAmount = snd st + bigDefaultStakedBalance;
          storageIndexes = getStorageIndexes H validator (of_nat indx);
          storageMap = storageMap
            (BytesToHash (ValidatorsIndex storageIndexes)
               \<mapsto> BytesToHash (Address_Bytes validator));
          storageMap = storageMap
            (BytesToHash (AddressToIsValidatorIndex storageIndexes)
               \<mapsto> BytesToHash (big_Bytes bigTrueValue));
          storageMap = storageMap
            (BytesToHash (AddressToStakedAmountIndex storageIndexes)
               \<mapsto> StringToHash (EncodeBig bigDefaultStakedBalance));
          storageMap = storageMap
            (BytesToHash (AddressToValidatorIndexIndex storageIndexes)
               \<mapsto> StringToHash (EncodeUint64 (of_nat indx)));
          storageMap = storageMap
            (BytesToHash (StakedAmountIndex storageIndexes)
               \<mapsto> BytesToHash (big_Bytes stakedAmount));
          storageMap = storageMap
            (BytesToHash (ValidatorsArraySizeIndex storageIndexes)
               \<mapsto> StringToHash (EncodeUint64 (of_nat (indx + 1))))
      in (storageMap, stakedAmount))"

fun validators_loop ::
  "keccak \<Rightarrow> int \<Rightarrow> nat \<Rightarrow> Address list \<Rightarrow> storage \<times> int \<Rightarrow> storage \<times> int" where
  "validators_loop H D indx [] st = st"
| "validators_loop H D indx (validator # validators) st =
     validators_loop H D (Suc indx) validators (validator_step H D indx validator st)"

text \<open>
  \<^verbatim>\<open>PredeployStakingSC(validators, params)\<close>. The two string constants of the package are
  arguments of \<open>PredeployStakingSC_of\<close>: \<open>bytecode\<close> stands for \<^verbatim>\<open>StakingSCBytecode\<close>
  (a literal of 11906 characters, different in each version of the file) and \<open>balance\<close> for
  \<^verbatim>\<open>DefaultStakedBalance\<close>. The error of \<^verbatim>\<open>hex.DecodeHex\<close> is assigned to \<^verbatim>\<open>_\<close>.
\<close>

definition PredeployStakingSC_of ::
  "string \<Rightarrow> string \<Rightarrow> keccak \<Rightarrow> Address list \<Rightarrow> PredeployParams
     \<Rightarrow> error + GenesisAccount" where
  "PredeployStakingSC_of bytecode balance H validators params =
     (let scHex = fst (DecodeHex bytecode) in
      case ParseUint256orHex balance of
        Inl err \<Rightarrow> Inl (unable_to_generate_DefaultStatkedBalance err)
      | Inr bigDefaultStakedBalance \<Rightarrow>
          (let bigMinNumValidators = big_NewInt (MinValidatorCount params);
               bigMaxNumValidators = big_NewInt (MaxValidatorCount params);
               st = validators_loop H bigDefaultStakedBalance 0 validators (Map.empty, 0);
               storageMap = fst st;
               stakedAmount = snd st;
               storageMap = storageMap
                 (BytesToHash (big_Bytes (big_NewInt minNumValidatorSlot))
                    \<mapsto> BytesToHash (big_Bytes bigMinNumValidators));
               storageMap = storageMap
                 (BytesToHash (big_Bytes (big_NewInt maxNumValidatorSlot))
                    \<mapsto> BytesToHash (big_Bytes bigMaxNumValidators))
           in Inr \<lparr> Code = scHex, Storage = storageMap, Balance = stakedAmount \<rparr>))"

definition PredeployStakingSC ::
  "string \<Rightarrow> keccak \<Rightarrow> Address list \<Rightarrow> PredeployParams \<Rightarrow> error + GenesisAccount" where
  "PredeployStakingSC bytecode H validators params =
     PredeployStakingSC_of bytecode DefaultStakedBalance H validators params"

subsection \<open>The keys the package writes\<close>

text \<open>
  Names for the eight key expressions of \<^verbatim>\<open>PredeployStakingSC\<close>: the storage index computed by
  \<^verbatim>\<open>getStorageIndexes\<close>, or the slot number after the loop, passed through
  \<^verbatim>\<open>types.BytesToHash\<close>.
\<close>

definition arrayElementKey :: "keccak \<Rightarrow> nat \<Rightarrow> Hash" where
  "arrayElementKey H indx =
     BytesToHash (getIndexWithOffset
       (H (PadLeftOrTrim (big_Bytes (big_NewInt validatorsSlot)) 32)) (of_nat indx))"

definition isValidatorKey :: "keccak \<Rightarrow> Address \<Rightarrow> Hash" where
  "isValidatorKey H a = BytesToHash (getAddressMapping H a addressToIsValidatorSlot)"

definition stakedAmountKey :: "keccak \<Rightarrow> Address \<Rightarrow> Hash" where
  "stakedAmountKey H a = BytesToHash (getAddressMapping H a addressToStakedAmountSlot)"

definition validatorIndexKey :: "keccak \<Rightarrow> Address \<Rightarrow> Hash" where
  "validatorIndexKey H a = BytesToHash (getAddressMapping H a addressToValidatorIndexSlot)"

definition totalStakedKey :: Hash where
  "totalStakedKey = BytesToHash (big_Bytes (big_NewInt stakedAmountSlot))"

definition arrayLengthKey :: Hash where
  "arrayLengthKey = BytesToHash [ucast validatorsSlot]"

definition minValidatorCountKey :: Hash where
  "minValidatorCountKey = BytesToHash (big_Bytes (big_NewInt minNumValidatorSlot))"

definition maxValidatorCountKey :: Hash where
  "maxValidatorCountKey = BytesToHash (big_Bytes (big_NewInt maxNumValidatorSlot))"

definition array_keys :: "keccak \<Rightarrow> nat \<Rightarrow> Hash list" where
  "array_keys H n = map (arrayElementKey H) [0..<n]"

definition mapping_keys :: "keccak \<Rightarrow> Address list \<Rightarrow> Hash list" where
  "mapping_keys H vs =
     concat (map (\<lambda>a. [isValidatorKey H a, stakedAmountKey H a, validatorIndexKey H a]) vs)"

definition scalar_keys :: "Hash list" where
  "scalar_keys = [totalStakedKey, arrayLengthKey, minValidatorCountKey, maxValidatorCountKey]"

text \<open>
  The assumption of the specification on the hash: the keys derived from it for distinct
  logical facts do not collide. The three mapping keys of the distinct addresses of \<open>vs\<close>
  are pairwise different, and a key of one addressing rule (mapping, array element, scalar)
  is never a key of another rule.
\<close>

definition collision_free :: "keccak \<Rightarrow> Address list \<Rightarrow> bool" where
  "collision_free H vs =
     (distinct (mapping_keys H (remdups vs))
      \<and> list_all (\<lambda>k. k \<notin> set (array_keys H (length vs)) \<and> k \<notin> set scalar_keys)
            (mapping_keys H vs)
      \<and> list_all (\<lambda>k. k \<notin> set scalar_keys) (array_keys H (length vs)))"

text \<open>
  The writes of one iteration and of the whole loop as association lists, in the order in
  which they are made; \<open>tot\<close> is \<^verbatim>\<open>stakedAmount\<close> after the addition.
\<close>

definition step_writes :: "keccak \<Rightarrow> int \<Rightarrow> int \<Rightarrow> nat \<Rightarrow> Address \<Rightarrow> (Hash \<times> Hash) list" where
  "step_writes H D tot indx v =
     [(arrayElementKey H indx, BytesToHash (Address_Bytes v)),
      (isValidatorKey H v, BytesToHash (big_Bytes (big_NewInt 1))),
      (stakedAmountKey H v, StringToHash (EncodeBig D)),
      (validatorIndexKey H v, StringToHash (EncodeUint64 (of_nat indx))),
      (totalStakedKey, BytesToHash (big_Bytes tot)),
      (arrayLengthKey, StringToHash (EncodeUint64 (of_nat (indx + 1))))]"

fun all_writes :: "keccak \<Rightarrow> int \<Rightarrow> int \<Rightarrow> nat \<Rightarrow> Address list \<Rightarrow> (Hash \<times> Hash) list" where
  "all_writes H D s indx [] = []"
| "all_writes H D s indx (v # vs) =
     step_writes H D (s + D) indx v @ all_writes H D (s + D) (Suc indx) vs"

text \<open>The storage map after the loop and the two writes that follow it.\<close>

definition compiled_storage :: "keccak \<Rightarrow> int \<Rightarrow> Address list \<Rightarrow> PredeployParams \<Rightarrow> storage" where
  "compiled_storage H D vs params =
     (fst (validators_loop H D 0 vs (Map.empty, 0)))
       (minValidatorCountKey \<mapsto> BytesToHash (big_Bytes (big_NewInt (MinValidatorCount params))),
        maxValidatorCountKey \<mapsto> BytesToHash (big_Bytes (big_NewInt (MaxValidatorCount params))))"

subsection \<open>Values of hexadecimal strings\<close>

definition hexValue :: "string \<Rightarrow> nat" where
  "hexValue s = foldl (\<lambda>acc c. acc * 16 + the (fromHexChar c)) 0 s"

definition isHex :: "char \<Rightarrow> bool" where
  "isHex c = (fromHexChar c \<noteq> None)"

section \<open>The addressing rules as the specification words them\<close>

text \<open>\<open>leftPad\<close> zero-extends on the left to exactly \<open>n\<close> bytes.\<close>

definition leftPad :: "byte list \<Rightarrow> nat \<Rightarrow> byte list" where
  "leftPad bs n = replicate (n - length bs) 0 @ bs"

text \<open>\<open>mappingKey(address, slot) = Hash(leftPad(address,32) ++ leftPad(bigEndian(slot),32))\<close>\<close>

definition mappingKey_spec :: "keccak \<Rightarrow> byte list \<Rightarrow> nat \<Rightarrow> byte list" where
  "mappingKey_spec Hash address slot = Hash (leftPad address 32 @ leftPad (bigEndian slot) 32)"

text \<open>\<open>arrayElementKey(slot, index) = bigEndian(toInt(Hash(leftPad(bigEndian(slot),32))) + index)\<close>\<close>

definition arrayElementKey_spec :: "keccak \<Rightarrow> nat \<Rightarrow> nat \<Rightarrow> byte list" where
  "arrayElementKey_spec Hash slot index = bigEndian (toInt (Hash (leftPad (bigEndian slot) 32)) + index)"

section \<open>Concrete inputs\<close>

text \<open>
  A stand-in for the hash with 32-byte results, used to run the functions on examples:
  the length of the input, the 20 address bytes of a mapping preimage and its last byte.
\<close>

definition example_hash :: keccak where
  "example_hash bs = BytesToHash (of_nat (length bs) # take 20 (drop 12 bs) @ drop 63 bs)"

definition addrA :: Address where
  "addrA = replicate 19 0 @ [10]"

definition addrB :: Address where
  "addrB = replicate 19 0 @ [11]"

definition example_params :: PredeployParams where
  "example_params = \<lparr> MinValidatorCount = 1, MaxValidatorCount = 5 \<rparr>"

definition boundary_params :: PredeployParams where
  "boundary_params =
     \<lparr> MinValidatorCount = 9223372036854775808, MaxValidatorCount = 18446744073709551615 \<rparr>"

section \<open>Verification\<close>

lemma toInt_Nil [simp]: "toInt [] = 0"
  by (simp add: toInt_def)

lemma toInt_snoc [simp]: "toInt (bs @ [b]) = toInt bs * 256 + unat b"
  by (simp add: toInt_def)

lemma toInt_append: "toInt (xs @ ys) = toInt xs * 256 ^ length ys + toInt ys"
proof (induction ys rule: rev_induct)
  case Nil
  then show ?case by simp
next
  case (snoc y ys)
  have "toInt (xs @ ys @ [y]) = toInt ((xs @ ys) @ [y])" by simp
  also have "\<dots> = toInt (xs @ ys) * 256 + unat y" by (rule toInt_snoc)
  finally show ?case using snoc by (simp add: algebra_simps)
qed

lemma toInt_Cons: "toInt (b # bs) = unat b * 256 ^ length bs + toInt bs"
  using toInt_append [of "[b]" bs] by (simp add: toInt_def)

lemma toInt_replicate_zero [simp]: "toInt (replicate n 0) = 0"
  by (induction n) (simp_all add: toInt_Cons)

lemma toInt_less: "toInt bs < 256 ^ length bs"
proof (induction bs rule: rev_induct)
  case Nil
  then show ?case by simp
next
  case (snoc b bs)
  have "unat b < 256" using unsigned_less [of b, where ?'a = nat] by simp
  with snoc show ?case by simp
qed

lemma unat_byte_of_nat: "unat (of_nat (n mod 256) :: byte) = n mod 256"
  by (simp add: unat_of_nat)

lemma toInt_bigEndian [simp]: "toInt (bigEndian n) = n"
proof (induction n rule: bigEndian.induct)
  case (1 n)
  show ?case
  proof (cases "n = 0")
    case True
    then show ?thesis by (simp add: bigEndian.simps)
  next
    case False
    with 1 have "toInt (bigEndian (n div 256)) = n div 256" by simp
    with False show ?thesis
      by (subst bigEndian.simps) (simp add: unat_byte_of_nat)
  qed
qed

lemma toInt_inj: "length xs = length ys \<Longrightarrow> toInt xs = toInt ys \<Longrightarrow> xs = ys"
proof (induction xs ys rule: list_induct2)
  case Nil
  then show ?case by simp
next
  case (Cons x xs y ys)
  let ?p = "256 ^ length xs :: nat"
  from Cons.prems Cons.hyps have eq: "unat x * ?p + toInt xs = unat y * ?p + toInt ys"
    by (simp add: toInt_Cons)
  have lx: "toInt xs < ?p" by (rule toInt_less)
  have ly: "toInt ys < ?p" using toInt_less [of ys] Cons.hyps by simp
  from eq have "(unat x * ?p + toInt xs) div ?p = (unat y * ?p + toInt ys) div ?p" by simp
  with lx ly have ux: "unat x = unat y" by simp
  with eq have "toInt xs = toInt ys" by simp
  with Cons.IH ux show ?case by (simp add: word_unat_eq_iff)
qed

lemma length_BytesToHash [simp]: "length (BytesToHash b) = 32"
  by (simp add: BytesToHash_def HashLength_def Let_def min_def)

lemma toInt_drop: "toInt (drop k b) = toInt b mod 256 ^ (length b - k)"
proof -
  have "toInt b = toInt (take k b @ drop k b)" by simp
  also have "\<dots> = toInt (take k b) * 256 ^ length (drop k b) + toInt (drop k b)"
    by (rule toInt_append)
  finally have "toInt b mod 256 ^ (length b - k) = toInt (drop k b) mod 256 ^ (length b - k)"
    by simp
  moreover have "toInt (drop k b) < 256 ^ (length b - k)"
    using toInt_less [of "drop k b"] by simp
  ultimately show ?thesis by simp
qed

lemma toInt_BytesToHash: "toInt (BytesToHash b) = toInt b mod 2 ^ 256"
proof (cases "length b \<le> 32")
  case True
  have "toInt b < 256 ^ length b" by (rule toInt_less)
  also have "\<dots> \<le> (256::nat) ^ 32" using True by (intro power_increasing) simp_all
  finally have "toInt b < 2 ^ 256" by simp
  with True show ?thesis
    by (simp add: BytesToHash_def HashLength_def Let_def min_def toInt_append)
next
  case False
  then have "toInt (BytesToHash b) = toInt (drop (length b - 32) b)"
    by (simp add: BytesToHash_def HashLength_def Let_def min_def)
  also have "\<dots> = toInt b mod 256 ^ 32" using False by (simp add: toInt_drop)
  finally show ?thesis by simp
qed

lemma BytesToHash_eq_iff:
  "BytesToHash a = BytesToHash b \<longleftrightarrow> toInt a mod 2 ^ 256 = toInt b mod 2 ^ 256"
proof
  assume "BytesToHash a = BytesToHash b"
  then have "toInt (BytesToHash a) = toInt (BytesToHash b)" by simp
  then show "toInt a mod 2 ^ 256 = toInt b mod 2 ^ 256" by (simp only: toInt_BytesToHash)
next
  assume "toInt a mod 2 ^ 256 = toInt b mod 2 ^ 256"
  then have "toInt (BytesToHash a) = toInt (BytesToHash b)" by (simp only: toInt_BytesToHash)
  then show "BytesToHash a = BytesToHash b" by (intro toInt_inj) simp_all
qed

lemma fromHexChar_less: "fromHexChar c = Some d \<Longrightarrow> d < 16"
  by (auto simp: fromHexChar_def split: if_splits)

lemma fromHexChar_hexDigit: "d < 16 \<Longrightarrow> fromHexChar (hexDigit d) = Some d"
proof -
  assume "d < 16"
  then have "d = 0 \<or> d = 1 \<or> d = 2 \<or> d = 3 \<or> d = 4 \<or> d = 5 \<or> d = 6 \<or> d = 7
    \<or> d = 8 \<or> d = 9 \<or> d = 10 \<or> d = 11 \<or> d = 12 \<or> d = 13 \<or> d = 14 \<or> d = 15"
    by arith
  then show ?thesis by (elim disjE) (simp_all add: fromHexChar_def hexDigit_def)
qed

lemma hexValue_Nil [simp]: "hexValue [] = 0"
  by (simp add: hexValue_def)

lemma hexValue_snoc [simp]: "hexValue (s @ [c]) = hexValue s * 16 + the (fromHexChar c)"
  by (simp add: hexValue_def)

lemma hexValue_append: "hexValue (xs @ ys) = hexValue xs * 16 ^ length ys + hexValue ys"
proof (induction ys rule: rev_induct)
  case Nil
  then show ?case by simp
next
  case (snoc y ys)
  have "hexValue (xs @ ys @ [y]) = hexValue ((xs @ ys) @ [y])" by simp
  also have "\<dots> = hexValue (xs @ ys) * 16 + the (fromHexChar y)" by (rule hexValue_snoc)
  finally show ?case using snoc by (simp add: algebra_simps)
qed

lemma hexValue_Cons2:
  "hexValue (p # q # s) =
     (the (fromHexChar p) * 16 + the (fromHexChar q)) * 16 ^ length s + hexValue s"
  using hexValue_append [of "[p, q]" s] by (simp add: hexValue_def)

lemma formatHex_isHex: "list_all isHex (formatHex n)"
proof (induction n rule: formatHex.induct)
  case (1 n)
  show ?case
  proof (cases "n < 16")
    case True
    then show ?thesis
      by (subst formatHex.simps) (simp add: isHex_def fromHexChar_hexDigit)
  next
    case False
    with 1 have "list_all isHex (formatHex (n div 16))" by simp
    with False show ?thesis
      by (subst formatHex.simps) (simp add: isHex_def fromHexChar_hexDigit)
  qed
qed

lemma hexValue_formatHex [simp]: "hexValue (formatHex n) = n"
proof (induction n rule: formatHex.induct)
  case (1 n)
  show ?case
  proof (cases "n < 16")
    case True
    then have "hexValue [hexDigit n] = n"
      using hexValue_snoc [of "[]" "hexDigit n"] by (simp add: fromHexChar_hexDigit)
    with True show ?thesis by (subst formatHex.simps) simp
  next
    case False
    with 1 have "hexValue (formatHex (n div 16)) = n div 16" by simp
    with False show ?thesis
      by (subst formatHex.simps) (simp add: fromHexChar_hexDigit)
  qed
qed

lemma hex_DecodeString_valid:
  "list_all isHex s \<Longrightarrow> even (length s) \<Longrightarrow>
     snd (hex_DecodeString s) = None
     \<and> length (fst (hex_DecodeString s)) = length s div 2
     \<and> toInt (fst (hex_DecodeString s)) = hexValue s"
proof (induction s rule: hex_DecodeString.induct)
  case 1
  then show ?case by simp
next
  case (2 p)
  then show ?case by simp
next
  case (3 p q s)
  from "3.prems" obtain a b where a: "fromHexChar p = Some a" and b: "fromHexChar q = Some b"
    by (auto simp: isHex_def)
  from "3.prems" have s: "list_all isHex s" "even (length s)" by simp_all
  obtain dst err where d: "hex_DecodeString s = (dst, err)" by (cases "hex_DecodeString s")
  from "3.IH" [OF a b s] d have ih: "err = None" "length dst = length s div 2" "toInt dst = hexValue s"
    by simp_all
  have "a < 16" "b < 16" using a b by (auto dest: fromHexChar_less)
  then have ab: "a * 16 + b < 256" by simp
  then have u: "unat (of_nat (a * 16 + b) :: byte) = a * 16 + b"
    by (simp only: unat_of_nat) simp
  from s(2) obtain k where k: "length s = 2 * k" by (auto elim: evenE)
  then have pw: "(256::nat) ^ (length s div 2) = 16 ^ length s"
    by (simp add: power_mult)
  show ?case
    using a b d ih u pw by (simp add: toInt_Cons hexValue_Cons2)
qed

lemma TrimPrefix_0x [simp]: "TrimPrefix (CHR ''0'' # CHR ''x'' # s) ''0x'' = s"
  by (simp add: TrimPrefix_def HasPrefix_def)

lemma toInt_stringToBytes_formatHex:
  "toInt (stringToBytes (CHR ''0'' # CHR ''x'' # formatHex n)) = n"
proof -
  let ?s = "formatHex n"
  let ?t = "if length ?s mod 2 = 1 then ''0'' @ ?s else ?s"
  have v: "list_all isHex ?t"
    using formatHex_isHex [of n] by (simp add: isHex_def fromHexChar_def)
  have e: "even (length ?t)" by (simp add: mod_Suc even_iff_mod_2_eq_zero)
  have "hexValue (''0'' @ ?s) = hexValue ?s"
    by (simp only: hexValue_append) (simp add: hexValue_def fromHexChar_def)
  then have h: "hexValue ?t = n" by simp
  have "stringToBytes (CHR ''0'' # CHR ''x'' # ?s) = fst (hex_DecodeString ?t)"
    by (simp add: stringToBytes_def Let_def)
  with hex_DecodeString_valid [OF v e] h show ?thesis by simp
qed

lemma toInt_StringToHash_EncodeUint64: "toInt (StringToHash (EncodeUint64 i)) = unat i"
proof -
  have "unat i < 2 ^ 64" using unsigned_less [of i, where ?'a = nat] by simp
  then have "unat i < 2 ^ 256" by (rule less_le_trans) simp
  then show ?thesis
    by (simp add: StringToHash_def EncodeUint64_def toInt_BytesToHash
        toInt_stringToBytes_formatHex)
qed

lemma toInt_StringToHash_EncodeBig:
  "0 \<le> b \<Longrightarrow> toInt (StringToHash (EncodeBig b)) = nat b mod 2 ^ 256"
proof -
  assume b: "0 \<le> b"
  have f0: "formatHex 0 = ''0''" by (subst formatHex.simps) (simp add: hexDigit_def)
  have "EncodeBig b = ''0x'' @ formatHex (nat b)"
    using b f0 by (simp add: EncodeBig_def)
  then show ?thesis
    by (simp add: StringToHash_def toInt_BytesToHash toInt_stringToBytes_formatHex)
qed

lemma big_Bytes_slots:
  "big_Bytes (big_NewInt validatorsSlot) = []"
  "big_Bytes (big_NewInt addressToIsValidatorSlot) = [1]"
  "big_Bytes (big_NewInt addressToStakedAmountSlot) = [2]"
  "big_Bytes (big_NewInt addressToValidatorIndexSlot) = [3]"
  "big_Bytes (big_NewInt stakedAmountSlot) = [4]"
  "big_Bytes (big_NewInt minNumValidatorSlot) = [5]"
  "big_Bytes (big_NewInt maxNumValidatorSlot) = [6]"
  by (simp_all add: big_Bytes_def big_NewInt_def validatorsSlot_def addressToIsValidatorSlot_def
      addressToStakedAmountSlot_def addressToValidatorIndexSlot_def stakedAmountSlot_def
      minNumValidatorSlot_def maxNumValidatorSlot_def bigEndian.simps)

lemma toInt_scalar_keys:
  "toInt totalStakedKey = 4" "toInt arrayLengthKey = 0"
  "toInt minValidatorCountKey = 5" "toInt maxValidatorCountKey = 6"
  by (simp_all add: totalStakedKey_def arrayLengthKey_def minValidatorCountKey_def
      maxValidatorCountKey_def big_Bytes_slots toInt_BytesToHash toInt_Cons validatorsSlot_def)

lemma example_hash_mapping:
  assumes "length a = 20"
  shows "example_hash (PadLeftOrTrim (Address_Bytes a) 32 @ PadLeftOrTrim [s] 32)
           = BytesToHash (64 # a @ [s])"
  using assms by (simp add: example_hash_def PadLeftOrTrim_def Address_Bytes_def)

subsection \<open>int64\<close>

lemma int_less_pow: "n < 2 ^ k \<Longrightarrow> int n < 2 ^ k"
  by simp

lemma int_ge_pow: "2 ^ k \<le> n \<Longrightarrow> 2 ^ k \<le> int n"
  by simp

lemma sint_of_nat_small: "n < 2 ^ 63 \<Longrightarrow> sint (of_nat n :: int64) = int n"
proof -
  assume "n < 2 ^ 63"
  then have "int n < 2 ^ 63" by simp
  moreover have "- (2 ^ 63) \<le> int n" by (rule order_trans [of _ 0]) simp_all
  ultimately have "signed_take_bit 63 (int n) = int n"
    by (rule signed_take_bit_int_eq_self [rotated])
  then show ?thesis by (simp add: signed_of_nat)
qed

lemma sint_small: "unat w < 2 ^ 63 \<Longrightarrow> sint (w :: int64) = int (unat w)"
proof -
  assume "unat w < 2 ^ 63"
  then have "int (unat w) < 2 ^ 63" by (rule int_less_pow)
  then have "uint w < 2 ^ 63" by (simp only: uint_nat)
  moreover have "- (2 ^ 63) \<le> uint w" by (rule order_trans [of _ 0]) simp_all
  ultimately have "signed_take_bit 63 (uint w) = uint w"
    by (rule signed_take_bit_int_eq_self [rotated])
  moreover have "sint w = signed_take_bit 63 (uint w)" by (simp add: sint_uint)
  ultimately show ?thesis by (simp only: uint_nat)
qed

lemma sint_large: "2 ^ 63 \<le> unat w \<Longrightarrow> sint (w :: int64) = int (unat w) - 2 ^ 64"
proof -
  assume a: "2 ^ 63 \<le> unat w"
  let ?k = "uint w"
  have "unat w < 2 ^ 64" using unsigned_less [of w, where ?'a = nat] by simp
  then have "int (unat w) < 2 ^ 64" by (rule int_less_pow)
  then have u: "?k < 2 ^ 64" by (simp only: uint_nat)
  from a have "2 ^ 63 \<le> int (unat w)" by (rule int_ge_pow)
  then have l: "2 ^ 63 \<le> ?k" by (simp only: uint_nat)
  have "(?k + 2 ^ 63) mod 2 ^ 64 = (?k + 2 ^ 63 - 2 ^ 64) mod 2 ^ 64"
    by (simp only: minus_mod_self2)
  also have "\<dots> = ?k + 2 ^ 63 - 2 ^ 64"
    using l u by (intro mod_pos_pos_trivial) simp_all
  finally have m: "take_bit 64 (?k + 2 ^ 63) = ?k + 2 ^ 63 - 2 ^ 64"
    by (simp only: take_bit_eq_mod)
  have "sint w = signed_take_bit 63 ?k" by (simp add: sint_uint)
  also have "\<dots> = take_bit (Suc 63) (?k + 2 ^ 63) - 2 ^ 63"
    by (rule signed_take_bit_eq_take_bit_shift)
  also have "\<dots> = ?k - 2 ^ 64" using m by simp
  finally show ?thesis by (simp only: uint_nat)
qed

subsection \<open>The loop as a list of writes\<close>

lemma validator_step_eq:
  "validator_step H D i v (m, s) = (m ++ map_of (rev (step_writes H D (s + D) i v)), s + D)"
  by (simp add: validator_step_def step_writes_def getStorageIndexes_def Let_def
      arrayElementKey_def isValidatorKey_def stakedAmountKey_def validatorIndexKey_def
      totalStakedKey_def arrayLengthKey_def)

lemma validators_loop_eq:
  "validators_loop H D i vs (m, s)
     = (m ++ map_of (rev (all_writes H D s i vs)), s + D * int (length vs))"
proof (induction vs arbitrary: m s i)
  case Nil
  then show ?case by simp
next
  case (Cons v vs)
  show ?case
    by (simp only: validators_loop.simps validator_step_eq Cons.IH all_writes.simps)
       (simp add: algebra_simps)
qed

lemma validators_loop_snoc:
  "validators_loop H D i (vs @ [v]) st
     = validator_step H D (i + length vs) v (validators_loop H D i vs st)"
  by (induction vs arbitrary: i st) simp_all

lemma validators_loop_total:
  "snd (validators_loop H D i vs (m, s)) = s + D * int (length vs)"
  by (simp add: validators_loop_eq)

subsection \<open>Keys\<close>

lemma neq_by_toInt: "toInt a \<noteq> toInt b \<Longrightarrow> a \<noteq> b"
  by auto

lemma scalar_keys_neq:
  "totalStakedKey \<noteq> arrayLengthKey" "totalStakedKey \<noteq> minValidatorCountKey"
  "totalStakedKey \<noteq> maxValidatorCountKey" "arrayLengthKey \<noteq> minValidatorCountKey"
  "arrayLengthKey \<noteq> maxValidatorCountKey" "minValidatorCountKey \<noteq> maxValidatorCountKey"
  by (rule neq_by_toInt, simp add: toInt_scalar_keys)+

lemma scalar_keys_distinct: "distinct scalar_keys"
  using scalar_keys_neq by (simp add: scalar_keys_def)

lemma getIndexWithOffset_nat:
  "i < 2 ^ 63 \<Longrightarrow> getIndexWithOffset kh (of_nat i) = bigEndian (toInt kh + i)"
proof -
  assume "i < 2 ^ 63"
  then have "sint (of_nat i :: int64) = int i" by (rule sint_of_nat_small)
  then have "big_SetBytes kh + big_NewInt (of_nat i) = int (toInt kh + i)"
    by (simp add: big_SetBytes_def big_NewInt_def)
  then show ?thesis
    by (simp only: getIndexWithOffset_def Let_def big_Bytes_def abs_of_nat nat_int)
qed

lemma toInt_arrayElementKey:
  "i < 2 ^ 63 \<Longrightarrow>
     toInt (arrayElementKey H i)
       = (toInt (H (PadLeftOrTrim (big_Bytes (big_NewInt validatorsSlot)) 32)) + i) mod 2 ^ 256"
  by (simp add: arrayElementKey_def getIndexWithOffset_nat toInt_BytesToHash)

lemma mod_add_cancel_small:
  fixes h i j m :: nat
  assumes "(h + i) mod m = (h + j) mod m" "i < m" "j < m"
  shows "i = j"
proof -
  have aux: "a = b" if "(h + a) mod m = (h + b) mod m" "a \<le> b" "b < m" for a b
  proof -
    from that(1) have "(h + b) mod m = (h + a) mod m" by simp
    moreover have "h + a \<le> h + b" using that(2) by simp
    ultimately have "m dvd (h + b) - (h + a)" by (simp add: mod_eq_dvd_iff_nat)
    then have "m dvd b - a" by simp
    moreover have "b - a < m" using that(3) by simp
    ultimately have "b - a = 0" by (meson dvd_imp_le not_less zero_less_iff_neq_zero)
    with that(2) show ?thesis by simp
  qed
  show ?thesis
  proof (cases "i \<le> j")
    case True
    with assms aux [of i j] show ?thesis by simp
  next
    case False
    with assms aux [of j i] show ?thesis by simp
  qed
qed

lemma arrayElementKey_inj:
  assumes "i < 2 ^ 63" "j < 2 ^ 63" "arrayElementKey H i = arrayElementKey H j"
  shows "i = j"
proof -
  let ?h = "toInt (H (PadLeftOrTrim (big_Bytes (big_NewInt validatorsSlot)) 32))"
  from assms(3) have "toInt (arrayElementKey H i) = toInt (arrayElementKey H j)" by simp
  then have "(?h + i) mod 2 ^ 256 = (?h + j) mod 2 ^ 256"
    by (simp only: toInt_arrayElementKey [OF assms(1)] toInt_arrayElementKey [OF assms(2)])
  moreover have "i < 2 ^ 256" using assms(1) by (rule less_le_trans) simp
  moreover have "j < 2 ^ 256" using assms(2) by (rule less_le_trans) simp
  ultimately show ?thesis by (rule mod_add_cancel_small)
qed

lemma array_keys_distinct: "n \<le> 2 ^ 63 \<Longrightarrow> distinct (array_keys H n)"
  unfolding array_keys_def distinct_map
  by (auto intro!: inj_onI elim!: arrayElementKey_inj [rotated 2])

lemma set_array_keys: "set (array_keys H n) = arrayElementKey H ` {0..<n}"
  by (simp add: array_keys_def)

lemma set_mapping_keys:
  "set (mapping_keys H vs)
     = (\<Union>a \<in> set vs. {isValidatorKey H a, stakedAmountKey H a, validatorIndexKey H a})"
  by (auto simp: mapping_keys_def)

lemma length_mapping_keys: "length (mapping_keys H vs) = 3 * length vs"
  by (induction vs) (simp_all add: mapping_keys_def)

lemma length_array_keys: "length (array_keys H n) = n"
  by (simp add: array_keys_def)

subsection \<open>The domain of the writes\<close>

lemma fst_step_writes:
  "fst ` set (step_writes H D t i v)
     = {arrayElementKey H i, isValidatorKey H v, stakedAmountKey H v, validatorIndexKey H v,
        totalStakedKey, arrayLengthKey}"
  by (simp add: step_writes_def)

lemma fst_all_writes:
  "fst ` set (all_writes H D s i vs)
     = arrayElementKey H ` {i..<i + length vs} \<union> set (mapping_keys H vs)
       \<union> (if vs = [] then {} else {totalStakedKey, arrayLengthKey})"
proof (induction vs arbitrary: s i)
  case Nil
  then show ?case by (simp add: mapping_keys_def)
next
  case (Cons v vs)
  have r: "{i..<i + length (v # vs)} = insert i {Suc i..<Suc i + length vs}" by auto
  show ?case
    unfolding all_writes.simps set_append image_Un Cons.IH fst_step_writes r
    by (auto simp: set_mapping_keys)
qed

subsection \<open>The result of the compilation\<close>

lemma parse_DefaultStakedBalance:
  "ParseUint256orHex DefaultStakedBalance = Inr 10000000000000000000"
  by (simp add: ParseUint256orHex_def DefaultStakedBalance_def HasPrefix_def big_SetString_def
      digitsValue_def fromHexChar_def)

lemma PredeployStakingSC_of_Inr:
  "ParseUint256orHex balance = Inr D \<Longrightarrow>
     PredeployStakingSC_of bytecode balance H vs params
       = Inr \<lparr> Code = fst (DecodeHex bytecode), Storage = compiled_storage H D vs params,
               Balance = D * int (length vs) \<rparr>"
  by (simp add: PredeployStakingSC_of_def compiled_storage_def Let_def
      minValidatorCountKey_def maxValidatorCountKey_def validators_loop_total)

lemma PredeployStakingSC_of_Inl:
  "ParseUint256orHex balance = Inl err \<Longrightarrow>
     PredeployStakingSC_of bytecode balance H vs params
       = Inl (unable_to_generate_DefaultStatkedBalance err)"
  by (simp add: PredeployStakingSC_of_def)

lemma PredeployStakingSC_Inr:
  "PredeployStakingSC bytecode H vs params
     = Inr \<lparr> Code = fst (DecodeHex bytecode),
             Storage = compiled_storage H 10000000000000000000 vs params,
             Balance = 10000000000000000000 * int (length vs) \<rparr>"
  by (simp only: PredeployStakingSC_def PredeployStakingSC_of_Inr [OF parse_DefaultStakedBalance])

subsection \<open>The scalar entries\<close>

lemma compiled_storage_min:
  "compiled_storage H D vs params minValidatorCountKey
     = Some (BytesToHash (big_Bytes (big_NewInt (MinValidatorCount params))))"
  using scalar_keys_neq by (simp add: compiled_storage_def)

lemma compiled_storage_max:
  "compiled_storage H D vs params maxValidatorCountKey
     = Some (BytesToHash (big_Bytes (big_NewInt (MaxValidatorCount params))))"
  by (simp add: compiled_storage_def)

lemma compiled_storage_Nil:
  "compiled_storage H D [] params
     = [minValidatorCountKey \<mapsto> BytesToHash (big_Bytes (big_NewInt (MinValidatorCount params))),
        maxValidatorCountKey \<mapsto> BytesToHash (big_Bytes (big_NewInt (MaxValidatorCount params)))]"
  by (simp add: compiled_storage_def)

lemma validator_step_arrayLength:
  "fst (validator_step H D i v st) arrayLengthKey
     = Some (StringToHash (EncodeUint64 (of_nat (i + 1))))"
  by (cases st) (simp add: validator_step_eq step_writes_def)

lemma validator_step_totalStaked:
  "fst (validator_step H D i v st) totalStakedKey
     = Some (BytesToHash (big_Bytes (snd st + D)))"
  using scalar_keys_neq by (cases st) (simp add: validator_step_eq step_writes_def)

lemma compiled_storage_arrayLength:
  assumes "vs \<noteq> []"
  shows "compiled_storage H D vs params arrayLengthKey
           = Some (StringToHash (EncodeUint64 (of_nat (length vs))))"
proof -
  from assms obtain us v where vs: "vs = us @ [v]" by (cases vs rule: rev_cases) auto
  show ?thesis
    using scalar_keys_neq
    by (simp add: compiled_storage_def vs validators_loop_snoc validator_step_arrayLength)
qed

lemma compiled_storage_totalStaked:
  assumes "vs \<noteq> []"
  shows "compiled_storage H D vs params totalStakedKey
           = Some (BytesToHash (big_Bytes (D * int (length vs))))"
proof -
  from assms obtain us v where vs: "vs = us @ [v]" by (cases vs rule: rev_cases) auto
  have "snd (validators_loop H D 0 us (Map.empty, 0)) + D = D * int (length vs)"
    by (simp add: validators_loop_total vs algebra_simps)
  then show ?thesis
    using scalar_keys_neq
    by (simp add: compiled_storage_def vs validators_loop_snoc validator_step_totalStaked)
qed

lemma toInt_count_value:
  "toInt (BytesToHash (big_Bytes (big_NewInt w))) = nat \<bar>sint w\<bar>"
proof -
  have "- (2 ^ 63) \<le> sint w" "sint w < 2 ^ 63"
    using sint_ge [of w] sint_lt [of w] by simp_all
  then have "\<bar>sint w\<bar> \<le> 2 ^ 63" by linarith
  then have "nat \<bar>sint w\<bar> \<le> 2 ^ 63" by (simp add: nat_le_iff)
  then have "nat \<bar>sint w\<bar> < 2 ^ 256" by (rule le_less_trans) simp
  then show ?thesis by (simp add: toInt_BytesToHash big_Bytes_def big_NewInt_def)
qed

lemma count_small: "unat (w :: uint64) \<le> 2 ^ 63 \<Longrightarrow> nat \<bar>sint w\<bar> = unat w"
proof (cases "unat w < 2 ^ 63")
  case True
  then show ?thesis by (simp add: sint_small [OF True])
next
  case False
  assume "unat w \<le> 2 ^ 63"
  with False have e: "unat w = 2 ^ 63" by simp
  then have "2 ^ 63 \<le> unat w" by simp
  then have "sint w = int (unat w) - 2 ^ 64" by (rule sint_large)
  then have "sint w = - (2 ^ 63)" by (simp only: e) simp
  then show ?thesis by (simp only: e) simp
qed

lemma nat_two_64_minus:
  "nat (18446744073709551616 - int n) = 18446744073709551616 - n"
  by arith

lemma count_large:
  assumes "2 ^ 63 < unat (w :: uint64)"
  shows "nat \<bar>sint w\<bar> = 2 ^ 64 - unat w" "nat \<bar>sint w\<bar> \<noteq> unat w"
proof -
  have u: "unat w < 2 ^ 64" using unsigned_less [of w, where ?'a = nat] by simp
  from assms have "2 ^ 63 \<le> unat w" by simp
  then have s: "sint w = int (unat w) - 2 ^ 64" by (rule sint_large)
  from u have "int (unat w) < 2 ^ 64" by (rule int_less_pow)
  with s have "\<bar>sint w\<bar> = 2 ^ 64 - int (unat w)" by linarith
  then have "nat \<bar>sint w\<bar> = nat (2 ^ 64 - int (unat w))" by simp
  also have "\<dots> = 2 ^ 64 - unat w"
    using nat_two_64_minus [of "unat w"] by simp
  finally show a: "nat \<bar>sint w\<bar> = 2 ^ 64 - unat w" .
  from assms u show "nat \<bar>sint w\<bar> \<noteq> unat w" unfolding a by simp
qed

text \<open>
  Claim C9. For every validator list and parameter pair \<^verbatim>\<open>PredeployStakingSC\<close> returns an
  account and no error. The error of decoding the bytecode is discarded: whatever the
  bytecode literal is, the code of the account is what the decoder returned beside its
  error. With any constants, the function fails exactly when the parse of the default
  staked balance fails, and the bundled constant parses.
\<close>

theorem PredeployStakingSC_never_fails:
  "\<not> isl (PredeployStakingSC bytecode H validators params)
   \<and> Code (projr (PredeployStakingSC bytecode H validators params)) = fst (DecodeHex bytecode)
   \<and> isl (PredeployStakingSC_of bytecode balance H validators params)
       = isl (ParseUint256orHex balance)
   \<and> \<not> isl (ParseUint256orHex DefaultStakedBalance)"
proof -
  have "isl (PredeployStakingSC_of bytecode balance H validators params)
          = isl (ParseUint256orHex balance)"
    by (cases "ParseUint256orHex balance")
       (simp_all add: PredeployStakingSC_of_Inl PredeployStakingSC_of_Inr)
  then show ?thesis
    by (simp add: PredeployStakingSC_Inr parse_DefaultStakedBalance)
qed

text \<open>
  Claim C5, as amended. The error of decoding the bytecode is never surfaced. The one error
  of \<^verbatim>\<open>PredeployStakingSC\<close> is the failed parse of the default staked balance, wrapped and
  returned without an account; when the parse succeeds an account is returned and its code
  is the bytes the decoder produced, error or not.
\<close>

theorem PredeployStakingSC_of_error_paths:
  "(ParseUint256orHex balance = Inl err \<longrightarrow>
      PredeployStakingSC_of bytecode balance H validators params
        = Inl (unable_to_generate_DefaultStatkedBalance err))
   \<and> (ParseUint256orHex balance = Inr D \<longrightarrow>
      (\<exists>acc. PredeployStakingSC_of bytecode balance H validators params = Inr acc
             \<and> Code acc = fst (DecodeHex bytecode)))"
  by (simp add: PredeployStakingSC_of_Inl PredeployStakingSC_of_Inr)

lemma DecodeHex_malformed: "DecodeHex ''0xZZ'' = ([], Some (InvalidByteError CHR ''Z''))"
  by (simp add: DecodeHex_def TrimPrefix_def HasPrefix_def fromHexChar_def)

lemma parse_malformed: "ParseUint256orHex ''0xZ'' = Inl could_not_parse"
  by (simp add: ParseUint256orHex_def HasPrefix_def big_SetString_def digitsValue_def
      fromHexChar_def)

text \<open>
  Both branches at concrete constants: a balance literal that does not parse, and the
  bundled balance with a bytecode literal that does not decode.
\<close>

theorem PredeployStakingSC_of_error_paths_witness:
  "ParseUint256orHex ''0xZ'' = Inl could_not_parse
   \<and> PredeployStakingSC_of ''0xZZ'' ''0xZ'' example_hash [addrA] example_params
       = Inl (unable_to_generate_DefaultStatkedBalance could_not_parse)
   \<and> ParseUint256orHex DefaultStakedBalance = Inr 10000000000000000000
   \<and> snd (DecodeHex ''0xZZ'') = Some (InvalidByteError CHR ''Z'')
   \<and> \<not> isl (PredeployStakingSC_of ''0xZZ'' DefaultStakedBalance example_hash [addrA] example_params)
   \<and> Code (projr (PredeployStakingSC_of ''0xZZ'' DefaultStakedBalance example_hash [addrA]
        example_params)) = []"
  using PredeployStakingSC_of_error_paths
      [of "''0xZ''" could_not_parse "''0xZZ''" example_hash "[addrA]" example_params]
    PredeployStakingSC_of_error_paths
      [of DefaultStakedBalance _ "''0xZZ''" example_hash "[addrA]" example_params
        10000000000000000000]
  by (auto simp: parse_malformed parse_DefaultStakedBalance DecodeHex_malformed)

text \<open>
  Claim C5 as stated fails: on the malformed bytecode literal \<^verbatim>\<open>0xZZ\<close> the decoder reports an
  invalid byte, and \<^verbatim>\<open>PredeployStakingSC\<close> still returns an account.
\<close>

theorem malformed_bytecode_not_surfaced:
  "snd (DecodeHex ''0xZZ'') = Some (InvalidByteError CHR ''Z'')
   \<and> \<not> isl (PredeployStakingSC ''0xZZ'' example_hash [] example_params)"
  by (simp add: DecodeHex_malformed PredeployStakingSC_Inr)

text \<open>
  Claim C6. For an empty validator list the storage map holds exactly the two entries of the
  minimum and maximum validator count; there is no entry at the array-length key, so that
  reading the map there yields the zero hash, which decodes to 0; and the balance is 0.
\<close>

theorem PredeployStakingSC_no_validators:
  "\<exists>acc. PredeployStakingSC bytecode H [] params = Inr acc
     \<and> dom (Storage acc) = {minValidatorCountKey, maxValidatorCountKey}
     \<and> card (dom (Storage acc)) = 2
     \<and> Storage acc arrayLengthKey = None
     \<and> storage_at (Storage acc) arrayLengthKey = ZeroHash
     \<and> toInt (storage_at (Storage acc) arrayLengthKey) = 0
     \<and> Balance acc = 0"
  using scalar_keys_neq
  by (simp add: PredeployStakingSC_Inr compiled_storage_Nil storage_at_def ZeroHash_def
      insert_commute)

text \<open>
  Claim C2. For a list of \<open>N\<close> validators (a Go slice has fewer than \<open>2^63\<close> elements) the
  balance of the returned account is \<open>N\<close> times the parsed \<^verbatim>\<open>DefaultStakedBalance\<close>, which is
  \<open>10^19\<close>, and for \<open>N \<ge> 1\<close> the value stored at the array-length key decodes to \<open>N\<close>.
\<close>

theorem PredeployStakingSC_balance_and_length:
  assumes "length validators < 2 ^ 63"
  shows "\<exists>acc. PredeployStakingSC bytecode H validators params = Inr acc
     \<and> ParseUint256orHex DefaultStakedBalance = Inr 10000000000000000000
     \<and> Balance acc = int (length validators) * 10000000000000000000
     \<and> (validators \<noteq> [] \<longrightarrow>
          (\<exists>v. Storage acc arrayLengthKey = Some v \<and> toInt v = length validators))"
proof -
  have "length validators < 2 ^ 64" using assms by (rule less_le_trans) simp
  then have "unat (of_nat (length validators) :: uint64) = length validators"
    by (simp add: unat_of_nat)
  then show ?thesis
    by (simp add: PredeployStakingSC_Inr parse_DefaultStakedBalance
        compiled_storage_arrayLength toInt_StringToHash_EncodeUint64)
qed

text \<open>Two validators: the balance is \<open>2 * 10^19\<close> and the stored length is 2.\<close>

theorem PredeployStakingSC_balance_and_length_witness:
  "length [addrA, addrB] < 2 ^ 63
   \<and> Balance (projr (PredeployStakingSC [] example_hash [addrA, addrB] example_params))
       = 20000000000000000000
   \<and> toInt (the (Storage (projr (PredeployStakingSC [] example_hash [addrA, addrB]
        example_params)) arrayLengthKey)) = 2"
proof -
  have h: "length [addrA, addrB] < 2 ^ 63" by simp
  show ?thesis
    using PredeployStakingSC_balance_and_length [OF h, of "[]" example_hash example_params]
    by auto
qed

text \<open>
  Claim C10, as amended. The two counts pass through \<^verbatim>\<open>int64\<close>: the value stored at the
  minimum (maximum) count key decodes to the absolute value of the count read as a signed
  64-bit integer. That is the count itself when the count is at most \<open>2^63\<close>, and
  \<open>2^64\<close> minus the count, which differs from the count, when the count exceeds \<open>2^63\<close>.
\<close>

theorem validator_counts_through_int64:
  "\<exists>acc. PredeployStakingSC bytecode H validators params = Inr acc
     \<and> (\<exists>vmin. Storage acc minValidatorCountKey = Some vmin
          \<and> toInt vmin = nat \<bar>sint (MinValidatorCount params)\<bar>
          \<and> (unat (MinValidatorCount params) \<le> 2 ^ 63 \<longrightarrow>
               toInt vmin = unat (MinValidatorCount params))
          \<and> (2 ^ 63 < unat (MinValidatorCount params) \<longrightarrow>
               toInt vmin = 2 ^ 64 - unat (MinValidatorCount params)
               \<and> toInt vmin \<noteq> unat (MinValidatorCount params)))
     \<and> (\<exists>vmax. Storage acc maxValidatorCountKey = Some vmax
          \<and> toInt vmax = nat \<bar>sint (MaxValidatorCount params)\<bar>
          \<and> (unat (MaxValidatorCount params) \<le> 2 ^ 63 \<longrightarrow>
               toInt vmax = unat (MaxValidatorCount params))
          \<and> (2 ^ 63 < unat (MaxValidatorCount params) \<longrightarrow>
               toInt vmax = 2 ^ 64 - unat (MaxValidatorCount params)
               \<and> toInt vmax \<noteq> unat (MaxValidatorCount params)))"
proof -
  let ?v = "\<lambda>w. BytesToHash (big_Bytes (big_NewInt w))"
  let ?m = "compiled_storage H 10000000000000000000 validators params"
  have c: "toInt (?v w) = nat \<bar>sint w\<bar>
      \<and> (unat w \<le> 2 ^ 63 \<longrightarrow> toInt (?v w) = unat w)
      \<and> (2 ^ 63 < unat w \<longrightarrow> toInt (?v w) = 2 ^ 64 - unat w \<and> toInt (?v w) \<noteq> unat w)"
    for w :: uint64
    unfolding toInt_count_value using count_small [of w] count_large [of w] by blast
  have "?m minValidatorCountKey = Some (?v (MinValidatorCount params))"
    by (rule compiled_storage_min)
  with c [of "MinValidatorCount params"] have a: "\<exists>vmin. ?m minValidatorCountKey = Some vmin
          \<and> toInt vmin = nat \<bar>sint (MinValidatorCount params)\<bar>
          \<and> (unat (MinValidatorCount params) \<le> 2 ^ 63 \<longrightarrow>
               toInt vmin = unat (MinValidatorCount params))
          \<and> (2 ^ 63 < unat (MinValidatorCount params) \<longrightarrow>
               toInt vmin = 2 ^ 64 - unat (MinValidatorCount params)
               \<and> toInt vmin \<noteq> unat (MinValidatorCount params))"
    by blast
  have "?m maxValidatorCountKey = Some (?v (MaxValidatorCount params))"
    by (rule compiled_storage_max)
  with c [of "MaxValidatorCount params"] have b: "\<exists>vmax. ?m maxValidatorCountKey = Some vmax
          \<and> toInt vmax = nat \<bar>sint (MaxValidatorCount params)\<bar>
          \<and> (unat (MaxValidatorCount params) \<le> 2 ^ 63 \<longrightarrow>
               toInt vmax = unat (MaxValidatorCount params))
          \<and> (2 ^ 63 < unat (MaxValidatorCount params) \<longrightarrow>
               toInt vmax = 2 ^ 64 - unat (MaxValidatorCount params)
               \<and> toInt vmax \<noteq> unat (MaxValidatorCount params))"
    by blast
  show ?thesis
    apply (rule exI)
    apply (intro conjI)
      apply (rule PredeployStakingSC_Inr)
     apply (simp only: GenesisAccount.select_convs, rule a)
    apply (simp only: GenesisAccount.select_convs, rule b)
    done
qed

text \<open>The minimum count \<open>2^63\<close> is stored unchanged; the maximum count \<open>2^64 - 1\<close> is stored as 1.\<close>

theorem validator_counts_through_int64_witness:
  "unat (MinValidatorCount boundary_params) \<le> 2 ^ 63
   \<and> 2 ^ 63 < unat (MaxValidatorCount boundary_params)
   \<and> toInt (the (Storage (projr (PredeployStakingSC [] example_hash [addrA] boundary_params))
        minValidatorCountKey)) = 9223372036854775808
   \<and> toInt (the (Storage (projr (PredeployStakingSC [] example_hash [addrA] boundary_params))
        maxValidatorCountKey)) = 1"
  using validator_counts_through_int64 [of "[]" example_hash "[addrA]" boundary_params]
  by (auto simp: boundary_params_def)

text \<open>
  Claim C10 as stated fails at the count \<open>2^63\<close>, which is "\<open>2^63\<close> or more" and is stored
  faithfully: the absolute value of \<open>-2^63\<close> is \<open>2^63\<close>.
\<close>

theorem count_at_two_to_63_is_faithful:
  "2 ^ 63 \<le> unat (MinValidatorCount boundary_params)
   \<and> toInt (the (Storage (projr (PredeployStakingSC [] example_hash [] boundary_params))
        minValidatorCountKey)) = unat (MinValidatorCount boundary_params)"
proof -
  have "unat (MinValidatorCount boundary_params) \<le> 2 ^ 63"
    by (simp add: boundary_params_def)
  then have "nat \<bar>sint (MinValidatorCount boundary_params)\<bar>
               = unat (MinValidatorCount boundary_params)"
    by (rule count_small)
  then show ?thesis
    by (simp add: PredeployStakingSC_Inr compiled_storage_min toInt_count_value
        boundary_params_def del: abs_of_nat)
qed

subsection \<open>The addressing rules\<close>

lemma length_bigEndian: "n < 256 ^ k \<Longrightarrow> length (bigEndian n) \<le> k"
proof (induction n arbitrary: k rule: bigEndian.induct)
  case (1 n)
  show ?case
  proof (cases "n = 0")
    case True
    then show ?thesis by (simp add: bigEndian.simps)
  next
    case False
    with "1.prems" obtain j where k: "k = Suc j" by (cases k) auto
    with "1.prems" have "n div 256 < 256 ^ j"
      by (simp add: less_mult_imp_div_less mult.commute)
    with "1.IH" [OF False] have "length (bigEndian (n div 256)) \<le> j" .
    with False k show ?thesis by (subst bigEndian.simps) simp
  qed
qed

lemma length_big_Bytes_int64: "length (big_Bytes (big_NewInt slot)) \<le> 32"
proof -
  have "- (2 ^ 63) \<le> sint slot" "sint slot < 2 ^ 63"
    using sint_ge [of slot] sint_lt [of slot] by simp_all
  then have "\<bar>sint slot\<bar> \<le> 2 ^ 63" by linarith
  then have "nat \<bar>sint slot\<bar> \<le> 2 ^ 63" by (simp add: nat_le_iff)
  then have "nat \<bar>sint slot\<bar> < 256 ^ 32" by (rule le_less_trans) simp
  then show ?thesis unfolding big_Bytes_def big_NewInt_def by (rule length_bigEndian)
qed

lemma PadLeftOrTrim_leftPad: "length bs \<le> n \<Longrightarrow> PadLeftOrTrim bs n = leftPad bs n"
  by (simp add: PadLeftOrTrim_def leftPad_def Let_def)

lemma getAddressMapping_mappingKey:
  assumes "length address = 20" "0 \<le> sint slot"
  shows "getAddressMapping H address slot = mappingKey_spec H address (nat (sint slot))"
proof -
  have a: "PadLeftOrTrim (Address_Bytes address) 32 = leftPad address 32"
    using assms(1) by (simp add: PadLeftOrTrim_leftPad Address_Bytes_def)
  have "big_Bytes (big_NewInt slot) = bigEndian (nat (sint slot))"
    using assms(2) by (simp add: big_Bytes_def big_NewInt_def)
  with length_big_Bytes_int64 [of slot]
  have b: "PadLeftOrTrim (big_Bytes (big_NewInt slot)) 32 = leftPad (bigEndian (nat (sint slot))) 32"
    by (simp add: PadLeftOrTrim_leftPad)
  show ?thesis by (simp add: getAddressMapping_def mappingKey_spec_def Let_def a b)
qed

text \<open>
  Different well-formed arguments give different inputs of the hash: two mapping keys can
  only coincide through a collision of the hash itself.
\<close>

lemma toInt_leftPad: "toInt (leftPad bs n) = toInt bs"
  by (simp add: leftPad_def toInt_append)

lemma mapping_preimage_inj:
  assumes "length a = 20" "length b = 20" "0 \<le> sint s" "0 \<le> sint t"
    and eq: "PadLeftOrTrim (Address_Bytes a) 32 @ PadLeftOrTrim (big_Bytes (big_NewInt s)) 32
      = PadLeftOrTrim (Address_Bytes b) 32 @ PadLeftOrTrim (big_Bytes (big_NewInt t)) 32"
  shows "a = b \<and> s = t"
proof -
  let ?n = "nat (sint s)" and ?m = "nat (sint t)"
  have bs: "big_Bytes (big_NewInt s) = bigEndian ?n" "big_Bytes (big_NewInt t) = bigEndian ?m"
    using assms(3,4) by (simp_all add: big_Bytes_def big_NewInt_def)
  have ps: "PadLeftOrTrim (big_Bytes (big_NewInt s)) 32 = leftPad (bigEndian ?n) 32"
    using length_big_Bytes_int64 [of s] by (simp add: PadLeftOrTrim_leftPad bs)
  have pt: "PadLeftOrTrim (big_Bytes (big_NewInt t)) 32 = leftPad (bigEndian ?m) 32"
    using length_big_Bytes_int64 [of t] by (simp add: PadLeftOrTrim_leftPad bs)
  have pa: "PadLeftOrTrim (Address_Bytes a) 32 = replicate 12 0 @ a"
    and pb: "PadLeftOrTrim (Address_Bytes b) 32 = replicate 12 0 @ b"
    using assms(1,2) by (simp_all add: PadLeftOrTrim_def Address_Bytes_def)
  from eq have "(replicate 12 0 @ a) @ leftPad (bigEndian ?n) 32
      = (replicate 12 0 @ b) @ leftPad (bigEndian ?m) 32"
    by (simp only: pa pb ps pt)
  then have "replicate 12 0 @ a = replicate 12 0 @ b"
    and l: "leftPad (bigEndian ?n) 32 = leftPad (bigEndian ?m) 32"
    using assms(1,2) by simp_all
  then have ab: "a = b" by simp
  from l have "toInt (leftPad (bigEndian ?n) 32) = toInt (leftPad (bigEndian ?m) 32)" by simp
  then have "?n = ?m" by (simp only: toInt_leftPad toInt_bigEndian)
  with assms(3,4) have "sint s = sint t" by simp
  then have "s = t" by (rule signed_word_eqI)
  with ab show ?thesis by simp
qed

lemma sint_slots:
  "sint validatorsSlot = 0" "sint addressToIsValidatorSlot = 1"
  "sint addressToStakedAmountSlot = 2" "sint addressToValidatorIndexSlot = 3"
  by (simp_all add: validatorsSlot_def addressToIsValidatorSlot_def
      addressToStakedAmountSlot_def addressToValidatorIndexSlot_def)

text \<open>
  Claim C3. For a 20-byte address and a non-negative slot number, \<^verbatim>\<open>getAddressMapping\<close>
  returns the hash of the address padded on the left to 32 bytes followed by the big-endian
  slot number padded on the left to 32 bytes; \<^verbatim>\<open>getStorageIndexes\<close> applies it with the
  slots 1, 2 and 3 for the is-validator, staked-amount and index mappings.
\<close>

theorem getAddressMapping_is_mappingKey:
  assumes "length address = 20" "0 \<le> sint slot"
  shows "getAddressMapping H address slot = mappingKey_spec H address (nat (sint slot))
    \<and> AddressToIsValidatorIndex (getStorageIndexes H address index)
        = mappingKey_spec H address 1
    \<and> AddressToStakedAmountIndex (getStorageIndexes H address index)
        = mappingKey_spec H address 2
    \<and> AddressToValidatorIndexIndex (getStorageIndexes H address index)
        = mappingKey_spec H address 3"
  using assms
  by (simp add: getStorageIndexes_def getAddressMapping_mappingKey sint_slots)

text \<open>An address of 20 bytes and slot 2.\<close>

theorem getAddressMapping_is_mappingKey_witness:
  "length addrA = 20 \<and> 0 \<le> sint (2 :: int64)
   \<and> getAddressMapping example_hash addrA 2
       = example_hash (replicate 12 0 @ addrA @ replicate 31 0 @ [2])
   \<and> AddressToIsValidatorIndex (getStorageIndexes example_hash addrA 0)
       = example_hash (replicate 12 0 @ addrA @ replicate 31 0 @ [1])"
proof -
  have h: "length addrA = 20" "0 \<le> sint (2 :: int64)" by (simp_all add: addrA_def)
  have b: "bigEndian 2 = [2]" "bigEndian 1 = [1]" "bigEndian (Suc 0) = [1]"
    by (simp_all add: bigEndian.simps)
  show ?thesis
    using getAddressMapping_is_mappingKey [OF h, of example_hash 0] h
    by (simp add: mappingKey_spec_def leftPad_def b)
qed

lemma getIndexWithOffset_spec:
  assumes "0 \<le> sint index"
  shows "getIndexWithOffset keccakHash index = bigEndian (toInt keccakHash + nat (sint index))"
proof -
  have "big_SetBytes keccakHash + big_NewInt index = int (toInt keccakHash + nat (sint index))"
    using assms by (simp add: big_SetBytes_def big_NewInt_def)
  then show ?thesis
    by (simp only: getIndexWithOffset_def Let_def big_Bytes_def abs_of_nat nat_int)
qed

text \<open>
  Claim C4. For a non-negative slot number and element index, the array element rule hashes
  the slot number padded on the left to 32 bytes, reads the digest as an unsigned big-endian
  integer, adds the index and encodes the sum in big-endian bytes; \<^verbatim>\<open>getStorageIndexes\<close>
  applies it to the validators array at slot 0.
\<close>

theorem getIndexWithOffset_is_arrayElementKey:
  assumes "0 \<le> sint slot" "0 \<le> sint index"
  shows "getIndexWithOffset (H (PadLeftOrTrim (big_Bytes (big_NewInt slot)) 32)) index
           = arrayElementKey_spec H (nat (sint slot)) (nat (sint index))
    \<and> ValidatorsIndex (getStorageIndexes H address index)
        = arrayElementKey_spec H 0 (nat (sint index))"
proof -
  have p: "PadLeftOrTrim (big_Bytes (big_NewInt s)) 32 = leftPad (bigEndian (nat (sint s))) 32"
    if "0 \<le> sint s" for s :: int64
  proof -
    have "big_Bytes (big_NewInt s) = bigEndian (nat (sint s))"
      using that by (simp add: big_Bytes_def big_NewInt_def)
    with length_big_Bytes_int64 [of s] show ?thesis by (simp add: PadLeftOrTrim_leftPad)
  qed
  have z: "0 \<le> sint validatorsSlot" by (simp add: sint_slots)
  show ?thesis
    using p [OF assms(1)] p [OF z]
    by (simp add: getStorageIndexes_def getIndexWithOffset_spec [OF assms(2)]
        arrayElementKey_spec_def sint_slots)
qed

text \<open>Slot 0 and index 3 on the example hash, whose digest of 32 zero bytes is \<open>32 * 256^20\<close>.\<close>

theorem getIndexWithOffset_is_arrayElementKey_witness:
  "0 \<le> sint (0 :: int64) \<and> 0 \<le> sint (3 :: int64)
   \<and> toInt (ValidatorsIndex (getStorageIndexes example_hash addrA 3))
       = 32 * 256 ^ 20 + 3"
proof -
  have h: "0 \<le> sint (0 :: int64)" "0 \<le> sint (3 :: int64)" by simp_all
  have b: "bigEndian 0 = []" by (simp add: bigEndian.simps)
  have e: "example_hash (replicate 32 0) = BytesToHash (32 # replicate 20 0)"
    by (simp add: example_hash_def)
  have "toInt (BytesToHash (32 # replicate 20 0)) = 32 * 256 ^ 20"
    by (simp add: toInt_BytesToHash toInt_Cons)
  then show ?thesis
    using getIndexWithOffset_is_arrayElementKey [OF h, of example_hash addrA]
    by (simp add: arrayElementKey_spec_def leftPad_def b e)
qed

subsection \<open>Consequences of collision freedom\<close>

lemma mapping_keys_Cons:
  "mapping_keys H (a # vs)
     = isValidatorKey H a # stakedAmountKey H a # validatorIndexKey H a # mapping_keys H vs"
  by (simp add: mapping_keys_def)

lemma mapping_keys_kinds:
  assumes "distinct (mapping_keys H xs)" "a \<in> set xs" "b \<in> set xs"
  shows "isValidatorKey H a \<noteq> stakedAmountKey H b"
    and "isValidatorKey H a \<noteq> validatorIndexKey H b"
    and "stakedAmountKey H a \<noteq> validatorIndexKey H b"
  using assms
  by (induction xs) (auto simp: mapping_keys_Cons set_mapping_keys)

lemma mapping_keys_inj:
  assumes "distinct (mapping_keys H xs)" "a \<in> set xs" "b \<in> set xs"
  shows "isValidatorKey H a = isValidatorKey H b \<Longrightarrow> a = b"
    and "stakedAmountKey H a = stakedAmountKey H b \<Longrightarrow> a = b"
    and "validatorIndexKey H a = validatorIndexKey H b \<Longrightarrow> a = b"
  using assms
  by (induction xs) (auto simp: mapping_keys_Cons set_mapping_keys)

lemma collision_free_kinds:
  assumes "collision_free H vs" "a \<in> set vs" "b \<in> set vs"
  shows "isValidatorKey H a \<noteq> stakedAmountKey H b"
    and "isValidatorKey H a \<noteq> validatorIndexKey H b"
    and "stakedAmountKey H a \<noteq> validatorIndexKey H b"
proof -
  from assms have d: "distinct (mapping_keys H (remdups vs))"
    and m: "a \<in> set (remdups vs)" "b \<in> set (remdups vs)"
    by (simp_all add: collision_free_def)
  show "isValidatorKey H a \<noteq> stakedAmountKey H b" by (rule mapping_keys_kinds(1) [OF d m])
  show "isValidatorKey H a \<noteq> validatorIndexKey H b" by (rule mapping_keys_kinds(2) [OF d m])
  show "stakedAmountKey H a \<noteq> validatorIndexKey H b" by (rule mapping_keys_kinds(3) [OF d m])
qed

lemma collision_free_mapping:
  assumes "collision_free H vs" "k \<in> set (mapping_keys H vs)"
  shows "k \<notin> set (array_keys H (length vs))" and "k \<notin> set scalar_keys"
  using assms by (simp_all add: collision_free_def list_all_iff)

lemma collision_free_array:
  assumes "collision_free H vs" "k \<in> set (array_keys H (length vs))"
  shows "k \<notin> set scalar_keys"
  using assms by (simp add: collision_free_def list_all_iff)

lemma mapping_keys_mem:
  "a \<in> set vs \<Longrightarrow> isValidatorKey H a \<in> set (mapping_keys H vs)"
  "a \<in> set vs \<Longrightarrow> stakedAmountKey H a \<in> set (mapping_keys H vs)"
  "a \<in> set vs \<Longrightarrow> validatorIndexKey H a \<in> set (mapping_keys H vs)"
  by (auto simp: set_mapping_keys)

subsection \<open>The values of the writes\<close>

lemma all_writes_cases:
  assumes "(k, x) \<in> set (all_writes H D s i vs)"
  shows "k \<in> arrayElementKey H ` {i..<i + length vs}
     \<or> (\<exists>a \<in> set vs. k = isValidatorKey H a \<and> x = BytesToHash (big_Bytes (big_NewInt 1)))
     \<or> (\<exists>a \<in> set vs. k = stakedAmountKey H a \<and> x = StringToHash (EncodeBig D))
     \<or> (\<exists>a \<in> set vs. k = validatorIndexKey H a)
     \<or> k = totalStakedKey \<or> k = arrayLengthKey"
  using assms
proof (induction vs arbitrary: s i)
  case Nil
  then show ?case by simp
next
  case (Cons v vs)
  from Cons.prems consider
    (here) "(k, x) \<in> set (step_writes H D (s + D) i v)"
    | (later) "(k, x) \<in> set (all_writes H D (s + D) (Suc i) vs)"
    by auto
  then show ?case
  proof cases
    case here
    then show ?thesis by (auto simp: step_writes_def)
  next
    case later
    have "{Suc i..<Suc i + length vs} \<subseteq> {i..<i + length (v # vs)}" by auto
    with Cons.IH [OF later] show ?thesis by auto
  qed
qed

lemma map_of_const:
  assumes "k \<in> fst ` set ws" "\<And>x. (k, x) \<in> set ws \<Longrightarrow> x = v"
  shows "map_of ws k = Some v"
proof -
  from assms(1) obtain y where y: "map_of ws k = Some y"
    by (cases "map_of ws k") (auto simp: map_of_eq_None_iff)
  then have "(k, y) \<in> set ws" by (rule map_of_SomeD)
  with assms(2) y show ?thesis by simp
qed

lemma compiled_storage_writes:
  "compiled_storage H D vs params
     = (map_of (rev (all_writes H D 0 0 vs)))
         (minValidatorCountKey
            \<mapsto> BytesToHash (big_Bytes (big_NewInt (MinValidatorCount params))),
          maxValidatorCountKey
            \<mapsto> BytesToHash (big_Bytes (big_NewInt (MaxValidatorCount params))))"
  by (simp add: compiled_storage_def validators_loop_eq)

lemma dom_compiled_storage:
  "dom (compiled_storage H D vs params)
     = set (array_keys H (length vs)) \<union> set (mapping_keys H vs)
       \<union> (if vs = [] then {} else {totalStakedKey, arrayLengthKey})
       \<union> {minValidatorCountKey, maxValidatorCountKey}"
proof -
  have "dom (map_of (rev (all_writes H D 0 0 vs))) = fst ` set (all_writes H D 0 0 vs)"
    by (simp add: dom_map_of_conv_image_fst)
  then show ?thesis
    unfolding compiled_storage_writes by (auto simp: fst_all_writes set_array_keys)
qed

text \<open>
  The entries of the two value mappings hold the same value for every list with the elements
  and the length of \<open>vs\<close>, in whatever order.
\<close>

lemma compiled_storage_isValidator:
  assumes cf: "collision_free H vs" and s: "set ws = set vs" and l: "length ws = length vs"
    and a: "a \<in> set vs"
  shows "compiled_storage H D ws params (isValidatorKey H a)
           = Some (BytesToHash (big_Bytes (big_NewInt 1)))"
proof -
  let ?k = "isValidatorKey H a"
  have km: "?k \<in> set (mapping_keys H vs)" using a by (rule mapping_keys_mem)
  have na: "?k \<notin> set (array_keys H (length vs))" and ns: "?k \<notin> set scalar_keys"
    using collision_free_mapping [OF cf km] by simp_all
  have kd: "?k \<noteq> stakedAmountKey H b \<and> ?k \<noteq> validatorIndexKey H b"
    if "b \<in> set vs" for b
    using collision_free_kinds(1,2) [OF cf a that] by simp
  have "?k \<in> fst ` set (all_writes H D 0 0 ws)"
    using a s by (auto simp: fst_all_writes set_mapping_keys)
  moreover have "x = BytesToHash (big_Bytes (big_NewInt 1))"
    if "(?k, x) \<in> set (all_writes H D 0 0 ws)" for x
    using all_writes_cases [OF that] na ns kd s l
    by (auto simp: set_array_keys scalar_keys_def)
  ultimately have "map_of (rev (all_writes H D 0 0 ws)) ?k
      = Some (BytesToHash (big_Bytes (big_NewInt 1)))"
    by (intro map_of_const) simp_all
  with ns show ?thesis by (simp add: compiled_storage_writes scalar_keys_def)
qed

lemma compiled_storage_stakedAmount:
  assumes cf: "collision_free H vs" and s: "set ws = set vs" and l: "length ws = length vs"
    and a: "a \<in> set vs"
  shows "compiled_storage H D ws params (stakedAmountKey H a)
           = Some (StringToHash (EncodeBig D))"
proof -
  let ?k = "stakedAmountKey H a"
  have km: "?k \<in> set (mapping_keys H vs)" using a by (rule mapping_keys_mem)
  have na: "?k \<notin> set (array_keys H (length vs))" and ns: "?k \<notin> set scalar_keys"
    using collision_free_mapping [OF cf km] by simp_all
  have kd: "?k \<noteq> isValidatorKey H b \<and> ?k \<noteq> validatorIndexKey H b"
    if "b \<in> set vs" for b
    using collision_free_kinds(1) [OF cf that a] collision_free_kinds(3) [OF cf a that]
    by auto
  have "?k \<in> fst ` set (all_writes H D 0 0 ws)"
    using a s by (auto simp: fst_all_writes set_mapping_keys)
  moreover have "x = StringToHash (EncodeBig D)"
    if "(?k, x) \<in> set (all_writes H D 0 0 ws)" for x
    using all_writes_cases [OF that] na ns kd s l
    by (auto simp: set_array_keys scalar_keys_def)
  ultimately have "map_of (rev (all_writes H D 0 0 ws)) ?k = Some (StringToHash (EncodeBig D))"
    by (intro map_of_const) simp_all
  with ns show ?thesis by (simp add: compiled_storage_writes scalar_keys_def)
qed

subsection \<open>The example hash is collision free on the example addresses\<close>

lemma collision_freeI:
  assumes "distinct (mapping_keys H (remdups vs) @ array_keys H (length vs) @ scalar_keys)"
  shows "collision_free H vs"
proof -
  have "set (mapping_keys H (remdups vs)) = set (mapping_keys H vs)"
    by (simp add: set_mapping_keys)
  with assms show ?thesis
    by (auto simp: collision_free_def list_all_iff)
qed

lemma distinct_by_toInt: "distinct (map toInt ks) \<Longrightarrow> distinct ks"
  by (simp add: distinct_map)

lemma toInt_BytesToHash_short: "length b \<le> 32 \<Longrightarrow> toInt (BytesToHash b) = toInt b"
proof -
  assume l: "length b \<le> 32"
  have "toInt b < 256 ^ length b" by (rule toInt_less)
  also have "\<dots> \<le> (256::nat) ^ 32" using l by (intro power_increasing) simp_all
  finally have "toInt b < 2 ^ 256" by simp
  then show ?thesis by (simp add: toInt_BytesToHash)
qed

lemma toInt_example_mapping:
  assumes "length a = 20"
  shows "toInt (isValidatorKey example_hash a) = 64 * 256 ^ 21 + toInt a * 256 + 1"
    and "toInt (stakedAmountKey example_hash a) = 64 * 256 ^ 21 + toInt a * 256 + 2"
    and "toInt (validatorIndexKey example_hash a) = 64 * 256 ^ 21 + toInt a * 256 + 3"
proof -
  have "toInt (BytesToHash (BytesToHash (64 # a @ [s]))) = 64 * 256 ^ 21 + toInt a * 256 + unat s"
    for s
    using assms by (simp add: toInt_BytesToHash_short toInt_Cons)
  then show "toInt (isValidatorKey example_hash a) = 64 * 256 ^ 21 + toInt a * 256 + 1"
    and "toInt (stakedAmountKey example_hash a) = 64 * 256 ^ 21 + toInt a * 256 + 2"
    and "toInt (validatorIndexKey example_hash a) = 64 * 256 ^ 21 + toInt a * 256 + 3"
    using assms
    by (simp_all add: isValidatorKey_def stakedAmountKey_def validatorIndexKey_def
        getAddressMapping_def big_Bytes_slots example_hash_mapping)
qed

lemma example_addresses:
  "length addrA = 20" "length addrB = 20" "toInt addrA = 10" "toInt addrB = 11" "addrA \<noteq> addrB"
  by (simp_all add: addrA_def addrB_def)

lemma toInt_example_array:
  assumes "i < 2 ^ 63"
  shows "toInt (arrayElementKey example_hash i) = 32 * 256 ^ 20 + i"
proof -
  have "example_hash (PadLeftOrTrim (big_Bytes (big_NewInt validatorsSlot)) 32)
          = BytesToHash (32 # replicate 20 0)"
    by (simp add: big_Bytes_slots PadLeftOrTrim_def example_hash_def)
  moreover have "toInt (BytesToHash (32 # replicate 20 0)) = 32 * 256 ^ 20"
    by (simp add: toInt_BytesToHash_short toInt_Cons)
  moreover have "32 * 256 ^ 20 + i < (2::nat) ^ 256"
  proof -
    have "32 * 256 ^ 20 + i < 32 * 256 ^ 20 + (2::nat) ^ 63" using assms by simp
    also have "\<dots> < 2 ^ 256" by simp
    finally show ?thesis .
  qed
  ultimately show ?thesis by (simp add: toInt_arrayElementKey [OF assms])
qed

lemma array_keys_2: "array_keys H 2 = [arrayElementKey H 0, arrayElementKey H 1]"
  by (simp add: array_keys_def numeral_2_eq_2)

lemma array_keys_1: "array_keys H 1 = [arrayElementKey H 0]"
  by (simp add: array_keys_def)

lemma toInt_example_array_01:
  "toInt (arrayElementKey example_hash 0) = 32 * 256 ^ 20"
  "toInt (arrayElementKey example_hash (Suc 0)) = 32 * 256 ^ 20 + 1"
  using toInt_example_array [of 0] toInt_example_array [of "Suc 0"] by simp_all

lemma collision_free_example_Nil: "collision_free example_hash []"
  by (simp add: collision_free_def mapping_keys_def array_keys_def)

lemma collision_free_example_AB: "collision_free example_hash [addrA, addrB]"
proof (rule collision_freeI, rule distinct_by_toInt)
  have r: "remdups [addrA, addrB] = [addrA, addrB]" using example_addresses by simp
  have l: "length [addrA, addrB] = 2" by simp
  show "distinct (map toInt (mapping_keys example_hash (remdups [addrA, addrB])
          @ array_keys example_hash (length [addrA, addrB]) @ scalar_keys))"
    unfolding r l
    by (simp add: mapping_keys_Cons mapping_keys_def array_keys_2 scalar_keys_def
        toInt_example_mapping example_addresses toInt_example_array_01 toInt_scalar_keys)
qed

lemma collision_free_example_AA: "collision_free example_hash [addrA, addrA]"
proof (rule collision_freeI, rule distinct_by_toInt)
  have r: "remdups [addrA, addrA] = [addrA]" by simp
  have l: "length [addrA, addrA] = 2" by simp
  show "distinct (map toInt (mapping_keys example_hash (remdups [addrA, addrA])
          @ array_keys example_hash (length [addrA, addrA]) @ scalar_keys))"
    unfolding r l
    by (simp add: mapping_keys_Cons mapping_keys_def array_keys_2 scalar_keys_def
        toInt_example_mapping example_addresses toInt_example_array_01 toInt_scalar_keys)
qed

subsection \<open>The key set\<close>

lemma set_mapping_keys_images:
  "set (mapping_keys H vs)
     = isValidatorKey H ` set vs \<union> stakedAmountKey H ` set vs \<union> validatorIndexKey H ` set vs"
  by (auto simp: set_mapping_keys)

lemma card_mapping_images:
  assumes "distinct (mapping_keys H vs)" "distinct vs"
  shows "card (isValidatorKey H ` set vs) = length vs"
    and "card (stakedAmountKey H ` set vs) = length vs"
    and "card (validatorIndexKey H ` set vs) = length vs"
proof -
  have "inj_on (isValidatorKey H) (set vs)"
    by (rule inj_onI) (rule mapping_keys_inj(1) [OF assms(1)])
  then show "card (isValidatorKey H ` set vs) = length vs"
    using assms(2) by (simp add: card_image distinct_card)
  have "inj_on (stakedAmountKey H) (set vs)"
    by (rule inj_onI) (rule mapping_keys_inj(2) [OF assms(1)])
  then show "card (stakedAmountKey H ` set vs) = length vs"
    using assms(2) by (simp add: card_image distinct_card)
  have "inj_on (validatorIndexKey H) (set vs)"
    by (rule inj_onI) (rule mapping_keys_inj(3) [OF assms(1)])
  then show "card (validatorIndexKey H ` set vs) = length vs"
    using assms(2) by (simp add: card_image distinct_card)
qed

lemma all_keys_distinct:
  assumes "distinct vs" "collision_free H vs" "length vs < 2 ^ 63"
  shows "distinct (array_keys H (length vs) @ mapping_keys H vs @ scalar_keys)"
proof -
  have r: "remdups vs = vs" using assms(1) by (rule distinct_remdups_id)
  have m: "distinct (mapping_keys H vs)"
    using assms(2) by (simp add: collision_free_def r)
  have a: "distinct (array_keys H (length vs))"
    using assms(3) by (intro array_keys_distinct) simp
  show ?thesis
    using m a scalar_keys_distinct collision_free_mapping [OF assms(2)]
      collision_free_array [OF assms(2)]
    by auto
qed

text \<open>
  Claim C1, as amended. For a list of \<open>N \<ge> 1\<close> validator addresses without duplicates, on
  which the keys derived from the hash do not collide, the key set of the returned storage
  map consists of the \<open>N\<close> array element keys, the \<open>N\<close> is-validator keys, the \<open>N\<close>
  staked-amount keys, the \<open>N\<close> index keys and the four keys of the total staked amount,
  the array length and the minimum and maximum validator count: \<open>4N + 4\<close> keys.
\<close>

theorem PredeployStakingSC_key_count:
  assumes "validators \<noteq> []" "distinct validators" "collision_free H validators"
    "length validators < 2 ^ 63"
  shows "\<exists>acc. PredeployStakingSC bytecode H validators params = Inr acc
     \<and> dom (Storage acc)
         = arrayElementKey H ` {0..<length validators}
           \<union> isValidatorKey H ` set validators
           \<union> stakedAmountKey H ` set validators
           \<union> validatorIndexKey H ` set validators
           \<union> {totalStakedKey, arrayLengthKey, minValidatorCountKey, maxValidatorCountKey}
     \<and> card (arrayElementKey H ` {0..<length validators}) = length validators
     \<and> card (isValidatorKey H ` set validators) = length validators
     \<and> card (stakedAmountKey H ` set validators) = length validators
     \<and> card (validatorIndexKey H ` set validators) = length validators
     \<and> card {totalStakedKey, arrayLengthKey, minValidatorCountKey, maxValidatorCountKey} = 4
     \<and> card (dom (Storage acc)) = 4 * length validators + 4"
proof -
  let ?m = "compiled_storage H 10000000000000000000 validators params"
  let ?all = "array_keys H (length validators) @ mapping_keys H validators @ scalar_keys"
  have d: "distinct ?all" using assms(2,3,4) by (rule all_keys_distinct)
  have dm: "distinct (mapping_keys H validators)" using d by simp
  have dom: "dom ?m = set ?all"
    using assms(1) by (auto simp: dom_compiled_storage scalar_keys_def)
  have "card (dom ?m) = length ?all" unfolding dom using d by (rule distinct_card)
  then have c: "card (dom ?m) = 4 * length validators + 4"
    by (simp add: length_array_keys length_mapping_keys scalar_keys_def)
  have ca: "card (arrayElementKey H ` {0..<length validators}) = length validators"
    using d distinct_card [of "array_keys H (length validators)"]
    by (simp add: set_array_keys length_array_keys)
  have cs: "card {totalStakedKey, arrayLengthKey, minValidatorCountKey, maxValidatorCountKey} = 4"
    using distinct_card [OF scalar_keys_distinct] by (simp add: scalar_keys_def)
  have dom': "dom ?m = arrayElementKey H ` {0..<length validators}
           \<union> isValidatorKey H ` set validators
           \<union> stakedAmountKey H ` set validators
           \<union> validatorIndexKey H ` set validators
           \<union> {totalStakedKey, arrayLengthKey, minValidatorCountKey, maxValidatorCountKey}"
    unfolding dom by (simp add: set_array_keys set_mapping_keys_images scalar_keys_def Un_assoc)
  show ?thesis
    apply (rule exI)
    apply (intro conjI)
           apply (rule PredeployStakingSC_Inr)
          apply (simp only: GenesisAccount.select_convs, rule dom')
         apply (rule ca)
        apply (rule card_mapping_images(1) [OF dm assms(2)])
       apply (rule card_mapping_images(2) [OF dm assms(2)])
      apply (rule card_mapping_images(3) [OF dm assms(2)])
     apply (rule cs)
    apply (simp only: GenesisAccount.select_convs, rule c)
    done
qed

text \<open>Two distinct validators give 12 keys.\<close>

theorem PredeployStakingSC_key_count_witness:
  "[addrA, addrB] \<noteq> [] \<and> distinct [addrA, addrB] \<and> collision_free example_hash [addrA, addrB]
   \<and> length [addrA, addrB] < 2 ^ 63
   \<and> card (dom (Storage (projr (PredeployStakingSC [] example_hash [addrA, addrB]
        example_params)))) = 12"
proof -
  have h: "[addrA, addrB] \<noteq> []" "distinct [addrA, addrB]"
    "collision_free example_hash [addrA, addrB]" "length [addrA, addrB] < 2 ^ 63"
    using example_addresses collision_free_example_AB by simp_all
  show ?thesis
    using PredeployStakingSC_key_count [OF h, of "[]" example_params] h by auto
qed

text \<open>
  Claim C1 as stated fails for \<open>N = 0\<close>: the empty list has no duplicates and no colliding
  keys, and the storage map has 2 keys, not \<open>4 * 0 + 4\<close>.
\<close>

theorem no_validators_two_keys:
  "distinct ([] :: Address list) \<and> collision_free example_hash []
   \<and> card (dom (Storage (projr (PredeployStakingSC [] example_hash [] example_params)))) = 2
   \<and> card (dom (Storage (projr (PredeployStakingSC [] example_hash [] example_params))))
       \<noteq> 4 * length ([] :: Address list) + 4"
  using scalar_keys_neq
  by (simp add: collision_free_example_Nil PredeployStakingSC_Inr compiled_storage_Nil)

subsection \<open>Permutations of the validator list\<close>

lemma compiled_storage_perm:
  assumes s: "set ws = set vs" and l: "length ws = length vs" and cf: "collision_free H vs"
    and k: "k \<notin> set (array_keys H (length vs)) \<union> validatorIndexKey H ` set vs"
  shows "compiled_storage H D ws params k = compiled_storage H D vs params k"
proof (cases "k \<in> dom (compiled_storage H D vs params)")
  case False
  have e: "(ws = []) = (vs = [])" using l by auto
  have "dom (compiled_storage H D ws params) = dom (compiled_storage H D vs params)"
    unfolding dom_compiled_storage set_mapping_keys s l e ..
  with False have "k \<notin> dom (compiled_storage H D ws params)" by simp
  with False show ?thesis by (simp add: domIff)
next
  case True
  with k consider
    (isv) a where "a \<in> set vs" "k = isValidatorKey H a"
    | (stk) a where "a \<in> set vs" "k = stakedAmountKey H a"
    | (tot) "vs \<noteq> []" "k = totalStakedKey"
    | (len) "vs \<noteq> []" "k = arrayLengthKey"
    | (min) "k = minValidatorCountKey"
    | (max) "k = maxValidatorCountKey"
    by (auto simp: dom_compiled_storage set_mapping_keys split: if_splits)
  then show ?thesis
  proof cases
    case isv
    then show ?thesis
      using compiled_storage_isValidator [OF cf s l] compiled_storage_isValidator [OF cf refl refl]
      by simp
  next
    case stk
    then show ?thesis
      using compiled_storage_stakedAmount [OF cf s l]
        compiled_storage_stakedAmount [OF cf refl refl]
      by simp
  next
    case tot
    with l have "ws \<noteq> []" by auto
    with tot l show ?thesis by (simp add: compiled_storage_totalStaked)
  next
    case len
    with l have "ws \<noteq> []" by auto
    with len l show ?thesis by (simp add: compiled_storage_arrayLength)
  next
    case min
    then show ?thesis by (simp add: compiled_storage_min)
  next
    case max
    then show ?thesis by (simp add: compiled_storage_max)
  qed
qed

lemma compiled_storage_arrayLength_perm:
  assumes "length ws = length vs"
  shows "compiled_storage H D ws params arrayLengthKey
           = compiled_storage H D vs params arrayLengthKey"
proof (cases "vs = []")
  case True
  with assms show ?thesis by simp
next
  case False
  with assms have "ws \<noteq> []" by auto
  with False assms show ?thesis by (simp add: compiled_storage_arrayLength)
qed

text \<open>
  Claim C8. For a validator list and a permutation of it, the two outputs have the same
  balance and the same array-length value. When the keys derived from the hash do not
  collide on the list, they have the same is-validator keys and the same staked-amount
  keys, with the same values (1 and the default staked balance), and they agree at every key
  that is neither an array element key nor an index-by-address key.
\<close>

theorem PredeployStakingSC_permutation:
  assumes "mset validators' = mset validators"
  shows "\<exists>acc acc'. PredeployStakingSC bytecode H validators params = Inr acc
     \<and> PredeployStakingSC bytecode H validators' params = Inr acc'
     \<and> Balance acc' = Balance acc
     \<and> Storage acc' arrayLengthKey = Storage acc arrayLengthKey
     \<and> (collision_free H validators \<longrightarrow>
          isValidatorKey H ` set validators' = isValidatorKey H ` set validators
          \<and> stakedAmountKey H ` set validators' = stakedAmountKey H ` set validators
          \<and> (\<forall>a \<in> set validators.
                Storage acc (isValidatorKey H a) = Some (BytesToHash (big_Bytes (big_NewInt 1)))
                \<and> Storage acc' (isValidatorKey H a) = Storage acc (isValidatorKey H a)
                \<and> Storage acc (stakedAmountKey H a)
                    = Some (StringToHash (EncodeBig 10000000000000000000))
                \<and> Storage acc' (stakedAmountKey H a) = Storage acc (stakedAmountKey H a))
          \<and> (\<forall>k. k \<notin> set (array_keys H (length validators))
                       \<union> validatorIndexKey H ` set validators \<longrightarrow>
                Storage acc' k = Storage acc k))"
proof -
  let ?D = "10000000000000000000 :: int"
  let ?m = "compiled_storage H ?D validators params"
  let ?m' = "compiled_storage H ?D validators' params"
  from assms have s: "set validators' = set validators" by (rule mset_eq_setD)
  from assms have l: "length validators' = length validators" by (rule mset_eq_length)
  have len: "?m' arrayLengthKey = ?m arrayLengthKey"
    using l by (rule compiled_storage_arrayLength_perm)
  have cfp: "isValidatorKey H ` set validators' = isValidatorKey H ` set validators
          \<and> stakedAmountKey H ` set validators' = stakedAmountKey H ` set validators
          \<and> (\<forall>a \<in> set validators.
                ?m (isValidatorKey H a) = Some (BytesToHash (big_Bytes (big_NewInt 1)))
                \<and> ?m' (isValidatorKey H a) = ?m (isValidatorKey H a)
                \<and> ?m (stakedAmountKey H a) = Some (StringToHash (EncodeBig ?D))
                \<and> ?m' (stakedAmountKey H a) = ?m (stakedAmountKey H a))
          \<and> (\<forall>k. k \<notin> set (array_keys H (length validators))
                       \<union> validatorIndexKey H ` set validators \<longrightarrow>
                ?m' k = ?m k)"
    if cf: "collision_free H validators"
    using compiled_storage_isValidator [OF cf s l, of _ ?D params]
      compiled_storage_isValidator [OF cf refl refl, of _ ?D params]
      compiled_storage_stakedAmount [OF cf s l, of _ ?D params]
      compiled_storage_stakedAmount [OF cf refl refl, of _ ?D params]
      compiled_storage_perm [OF s l cf, of _ ?D params]
    by (simp add: s)
  show ?thesis
    apply (rule exI)
    apply (rule exI)
    apply (intro conjI)
        apply (rule PredeployStakingSC_Inr)
       apply (rule PredeployStakingSC_Inr)
      apply (simp add: l)
     apply (simp only: GenesisAccount.select_convs, rule len)
    apply (simp only: GenesisAccount.select_convs)
    apply (rule impI)
    apply (erule cfp)
    done
qed

text \<open>The lists \<open>[A, B]\<close> and \<open>[B, A]\<close>.\<close>

theorem PredeployStakingSC_permutation_witness:
  "mset [addrB, addrA] = mset [addrA, addrB] \<and> collision_free example_hash [addrA, addrB]
   \<and> Balance (projr (PredeployStakingSC [] example_hash [addrB, addrA] example_params))
       = Balance (projr (PredeployStakingSC [] example_hash [addrA, addrB] example_params))
   \<and> Storage (projr (PredeployStakingSC [] example_hash [addrB, addrA] example_params))
        (isValidatorKey example_hash addrA)
       = Some (BytesToHash (big_Bytes (big_NewInt 1)))
   \<and> Storage (projr (PredeployStakingSC [] example_hash [addrB, addrA] example_params))
        totalStakedKey
       = Storage (projr (PredeployStakingSC [] example_hash [addrA, addrB] example_params))
        totalStakedKey"
proof -
  have h: "mset [addrB, addrA] = mset [addrA, addrB]" by simp
  have t: "totalStakedKey \<notin> set (array_keys example_hash (length [addrA, addrB]))
             \<union> validatorIndexKey example_hash ` set [addrA, addrB]"
  proof -
    have l: "length [addrA, addrB] = 2" by simp
    have "totalStakedKey \<noteq> validatorIndexKey example_hash addrA"
      "totalStakedKey \<noteq> validatorIndexKey example_hash addrB"
      "totalStakedKey \<noteq> arrayElementKey example_hash 0"
      "totalStakedKey \<noteq> arrayElementKey example_hash (Suc 0)"
      by (rule neq_by_toInt,
          simp add: toInt_scalar_keys toInt_example_mapping example_addresses
            toInt_example_array_01)+
    then show ?thesis unfolding l array_keys_2 by simp
  qed
  show ?thesis
    using PredeployStakingSC_permutation [OF h, of "[]" example_hash example_params]
      collision_free_example_AB t
    by auto
qed

subsection \<open>The same address twice\<close>

lemma duplicate_keys_distinct:
  assumes "collision_free H [A, A]"
  shows "distinct [arrayElementKey H 0, arrayElementKey H (Suc 0), isValidatorKey H A,
           stakedAmountKey H A, validatorIndexKey H A, totalStakedKey, arrayLengthKey,
           minValidatorCountKey, maxValidatorCountKey]"
proof -
  have l: "length [A, A] = 2" by simp
  have m: "set (mapping_keys H [A, A])
             = {isValidatorKey H A, stakedAmountKey H A, validatorIndexKey H A}"
    by (auto simp: set_mapping_keys)
  have a: "set (array_keys H (length [A, A])) = {arrayElementKey H 0, arrayElementKey H (Suc 0)}"
    unfolding l array_keys_2 by simp
  have "arrayElementKey H 0 \<noteq> arrayElementKey H (Suc 0)"
    using arrayElementKey_inj [of 0 "Suc 0" H] by auto
  moreover have "isValidatorKey H A \<noteq> stakedAmountKey H A"
    "isValidatorKey H A \<noteq> validatorIndexKey H A"
    "stakedAmountKey H A \<noteq> validatorIndexKey H A"
    using collision_free_kinds [OF assms, of A A] by simp_all
  moreover have "k \<notin> {arrayElementKey H 0, arrayElementKey H (Suc 0)} \<and> k \<notin> set scalar_keys"
    if "k \<in> {isValidatorKey H A, stakedAmountKey H A, validatorIndexKey H A}" for k
    using collision_free_mapping [OF assms, of k] that unfolding m a by blast
  moreover have "k \<notin> set scalar_keys"
    if "k \<in> {arrayElementKey H 0, arrayElementKey H (Suc 0)}" for k
    using collision_free_array [OF assms, of k] that unfolding a by blast
  ultimately show ?thesis
    using scalar_keys_distinct by (auto simp: scalar_keys_def)
qed

lemma compiled_storage_duplicate:
  "compiled_storage H D [A, A] params
     = [arrayElementKey H 0 \<mapsto> BytesToHash (Address_Bytes A),
        isValidatorKey H A \<mapsto> BytesToHash (big_Bytes (big_NewInt 1)),
        stakedAmountKey H A \<mapsto> StringToHash (EncodeBig D),
        validatorIndexKey H A \<mapsto> StringToHash (EncodeUint64 0),
        totalStakedKey \<mapsto> BytesToHash (big_Bytes D),
        arrayLengthKey \<mapsto> StringToHash (EncodeUint64 1),
        arrayElementKey H (Suc 0) \<mapsto> BytesToHash (Address_Bytes A),
        isValidatorKey H A \<mapsto> BytesToHash (big_Bytes (big_NewInt 1)),
        stakedAmountKey H A \<mapsto> StringToHash (EncodeBig D),
        validatorIndexKey H A \<mapsto> StringToHash (EncodeUint64 1),
        totalStakedKey \<mapsto> BytesToHash (big_Bytes (D + D)),
        arrayLengthKey \<mapsto> StringToHash (EncodeUint64 2),
        minValidatorCountKey \<mapsto> BytesToHash (big_Bytes (big_NewInt (MinValidatorCount params))),
        maxValidatorCountKey \<mapsto> BytesToHash (big_Bytes (big_NewInt (MaxValidatorCount params)))]"
  by (simp add: compiled_storage_def validator_step_eq step_writes_def)

text \<open>
  Claim C7. For the input \<open>[A, A]\<close> and default staked balance \<open>D\<close>, when the keys derived
  from the hash do not collide: the two array element keys are different and both hold
  \<open>A\<close>; there is one is-validator entry (value 1) and one staked-amount entry (value \<open>D\<close>);
  the index entry of \<open>A\<close> holds the later index 1; the map has these five keys and the four
  scalar keys and no other; and the balance is \<open>2 * D\<close>.
\<close>

theorem PredeployStakingSC_duplicate_address:
  assumes "ParseUint256orHex balance = Inr D" "collision_free H [A, A]"
  shows "\<exists>acc. PredeployStakingSC_of bytecode balance H [A, A] params = Inr acc
     \<and> arrayElementKey H 0 \<noteq> arrayElementKey H 1
     \<and> Storage acc (arrayElementKey H 0) = Some (BytesToHash (Address_Bytes A))
     \<and> Storage acc (arrayElementKey H 1) = Some (BytesToHash (Address_Bytes A))
     \<and> Storage acc (isValidatorKey H A) = Some (BytesToHash (big_Bytes (big_NewInt 1)))
     \<and> toInt (BytesToHash (big_Bytes (big_NewInt 1))) = 1
     \<and> Storage acc (stakedAmountKey H A) = Some (StringToHash (EncodeBig D))
     \<and> (0 \<le> D \<longrightarrow> toInt (StringToHash (EncodeBig D)) = nat D mod 2 ^ 256)
     \<and> Storage acc (validatorIndexKey H A) = Some (StringToHash (EncodeUint64 1))
     \<and> toInt (StringToHash (EncodeUint64 1)) = 1
     \<and> dom (Storage acc)
         = {arrayElementKey H 0, arrayElementKey H 1, isValidatorKey H A, stakedAmountKey H A,
            validatorIndexKey H A, totalStakedKey, arrayLengthKey, minValidatorCountKey,
            maxValidatorCountKey}
     \<and> card (dom (Storage acc)) = 9
     \<and> Balance acc = 2 * D"
proof -
  let ?m = "compiled_storage H D [A, A] params"
  let ?ks = "[arrayElementKey H 0, arrayElementKey H (Suc 0), isValidatorKey H A,
           stakedAmountKey H A, validatorIndexKey H A, totalStakedKey, arrayLengthKey,
           minValidatorCountKey, maxValidatorCountKey]"
  have d: "distinct ?ks" using assms(2) by (rule duplicate_keys_distinct)
  have dom: "dom ?m = set ?ks" unfolding compiled_storage_duplicate by auto
  have "card (dom ?m) = length ?ks" unfolding dom using d by (rule distinct_card)
  then have c: "card (dom ?m) = 9" by simp
  have v: "?m (arrayElementKey H 0) = Some (BytesToHash (Address_Bytes A))"
    "?m (arrayElementKey H (Suc 0)) = Some (BytesToHash (Address_Bytes A))"
    "?m (isValidatorKey H A) = Some (BytesToHash (big_Bytes (big_NewInt 1)))"
    "?m (stakedAmountKey H A) = Some (StringToHash (EncodeBig D))"
    "?m (validatorIndexKey H A) = Some (StringToHash (EncodeUint64 1))"
    using d unfolding compiled_storage_duplicate by auto
  have one: "toInt (BytesToHash (big_Bytes (big_NewInt 1))) = 1"
    by (simp add: toInt_count_value)
  have idx: "toInt (StringToHash (EncodeUint64 1)) = 1"
    by (simp add: toInt_StringToHash_EncodeUint64)
  show ?thesis
    unfolding PredeployStakingSC_of_Inr [OF assms(1)]
    using d dom c v one idx toInt_StringToHash_EncodeBig [of D]
    by simp
qed

text \<open>The example address twice, with the bundled balance.\<close>

theorem PredeployStakingSC_duplicate_address_witness:
  "ParseUint256orHex DefaultStakedBalance = Inr 10000000000000000000
   \<and> collision_free example_hash [addrA, addrA]
   \<and> Balance (projr (PredeployStakingSC_of [] DefaultStakedBalance example_hash [addrA, addrA]
        example_params)) = 20000000000000000000
   \<and> toInt (the (Storage (projr (PredeployStakingSC_of [] DefaultStakedBalance example_hash
        [addrA, addrA] example_params)) (validatorIndexKey example_hash addrA))) = 1
   \<and> toInt (the (Storage (projr (PredeployStakingSC_of [] DefaultStakedBalance example_hash
        [addrA, addrA] example_params)) (stakedAmountKey example_hash addrA)))
       = 10000000000000000000
   \<and> card (dom (Storage (projr (PredeployStakingSC_of [] DefaultStakedBalance example_hash
        [addrA, addrA] example_params)))) = 9"
  using PredeployStakingSC_duplicate_address
      [OF parse_DefaultStakedBalance collision_free_example_AA, of "[]" example_params]
    parse_DefaultStakedBalance collision_free_example_AA
  by auto

end
